theory Spec2Isabelle
  imports Complex_Main
begin

section \<open>Errors\<close>

text \<open>
  The classes of the exceptions that matter to the \<^verbatim>\<open>except\<close> clauses of
  \<^verbatim>\<open>Image_Processing_Tools.py\<close>; an exception of a subclass counts as one of the class,
  and every class that no clause names is \<open>OtherException\<close>. An \<open>error\<close> is one of the
  five \<^verbatim>\<open>raise\<close> statements of the source, or an exception that a built-in or a library
  raises: \<^verbatim>\<open>KeyError\<close> from a mapping without the key, \<^verbatim>\<open>TypeError\<close> from subscripting a
  non-mapping or from \<^verbatim>\<open>int(None)\<close>, \<^verbatim>\<open>ValueError\<close> from \<^verbatim>\<open>int("abc")\<close>, from
  \<^verbatim>\<open>int(float("nan"))\<close> and from \<^verbatim>\<open>np.concatenate\<close> on arrays that do not fit,
  \<^verbatim>\<open>OverflowError\<close> from \<^verbatim>\<open>int(float("inf"))\<close> and from dividing a 64-bit array by an
  integer that does not fit 64 bits, \<^verbatim>\<open>ZeroDivisionError\<close> from \<^verbatim>\<open>w // 0\<close>,
  \<^verbatim>\<open>IndexError\<close> from a boolean index of the wrong length.
\<close>

datatype exc_class =
  FileNotFoundError | ValueError | KeyError | TypeError | OverflowError
  | ZeroDivisionError | IndexError | OtherException

datatype error =
    ConfigFileNotFound          \<comment> \<open>line 30: \<^verbatim>\<open>FileNotFoundError("Configuration file not found ...")\<close>\<close>
  | MissingKey                  \<comment> \<open>line 52: \<^verbatim>\<open>ValueError("Invalid configuration data ...")\<close>\<close>
  | NotAnInteger                \<comment> \<open>line 59: \<^verbatim>\<open>ValueError("The provided step value is not a valid integer")\<close>\<close>
  | ImageFileNotFound           \<comment> \<open>lines 65 and 137: \<^verbatim>\<open>FileNotFoundError("Image file not found ...")\<close>\<close>
  | StepNotInRange int int      \<comment> \<open>line 68: \<^verbatim>\<open>ValueError\<close> whose message holds \<open>max_step_value\<close> and \<open>step\<close>\<close>
  | Raised exc_class            \<comment> \<open>an exception of that class from a built-in or a library\<close>

text \<open>The Python class of each exception; an \<^verbatim>\<open>except\<close> clause selects by class.\<close>

fun class_of :: "error \<Rightarrow> exc_class" where
  "class_of ConfigFileNotFound = FileNotFoundError"
| "class_of MissingKey = ValueError"
| "class_of NotAnInteger = ValueError"
| "class_of ImageFileNotFound = FileNotFoundError"
| "class_of (StepNotInRange mx s) = ValueError"
| "class_of (Raised c) = c"

text \<open>
  The four failure kinds of the specification, and the \<^verbatim>\<open>raise\<close> statement each one
  names. Every other exception is outside that taxonomy.
\<close>

datatype failure_kind = ConfigNotFound | InvalidConfig | ImageNotFound | StepOutOfRange

fun kind_of :: "error \<Rightarrow> failure_kind option" where
  "kind_of ConfigFileNotFound = Some ConfigNotFound"
| "kind_of MissingKey = Some InvalidConfig"
| "kind_of NotAnInteger = Some InvalidConfig"
| "kind_of ImageFileNotFound = Some ImageNotFound"
| "kind_of (StepNotInRange mx s) = Some StepOutOfRange"
| "kind_of e = None"

text \<open>Sequencing: the first exception ends the computation.\<close>

definition and_then :: "error + 'a \<Rightarrow> ('a \<Rightarrow> error + 'b) \<Rightarrow> error + 'b" where
  "and_then r f = (case r of Inl e \<Rightarrow> Inl e | Inr x \<Rightarrow> f x)"

section \<open>Image buffers\<close>

text \<open>
  A numpy array of at least two dimensions. The source only ever indexes the first two
  axes, so an element of \<open>cells\<close> stands for everything the array holds at one
  (row, column) position: one grey value, or the values of all channels. \<open>trailing\<close> is
  \<^verbatim>\<open>shape[2:]\<close>. The extents are fields of their own because an array keeps its shape
  when it holds no element (shape \<open>(0, 1000)\<close>). numpy keeps every extent in a signed
  64-bit integer, so the extents of an array are below \<open>2 ^ 63\<close>.
\<close>

record 'a ndarray =
  height :: nat
  width :: nat
  trailing :: "nat list"
  cells :: "'a list list"

definition shape :: "'a ndarray \<Rightarrow> nat list" where
  "shape a = height a # width a # trailing a"

definition wf_ndarray :: "'a ndarray \<Rightarrow> bool" where
  "wf_ndarray a \<longleftrightarrow>
     length (cells a) = height a \<and> list_all (\<lambda>r. length r = width a) (cells a)
     \<and> height a < 2 ^ 63 \<and> width a < 2 ^ 63"

text \<open>The cell at row \<open>i\<close>, column \<open>j\<close>: \<^verbatim>\<open>a[i, j]\<close> for indices in range.\<close>

definition cell :: "'a ndarray \<Rightarrow> nat \<Rightarrow> nat \<Rightarrow> 'a" where
  "cell a i j = cells a ! i ! j"

text \<open>
  The number of elements that \<^verbatim>\<open>a[:stop]\<close> keeps of \<open>n\<close>: a negative \<open>stop\<close> counts
  from the end, and a stop beyond the end keeps everything.
\<close>

definition slice_stop :: "int \<Rightarrow> nat \<Rightarrow> nat" where
  "slice_stop stop n = (if stop < 0 then nat (int n + stop) else min (nat stop) n)"

text \<open>\<^verbatim>\<open>image[:h, :w]\<close>\<close>

definition slice2 :: "int \<Rightarrow> int \<Rightarrow> 'a ndarray \<Rightarrow> 'a ndarray" where
  "slice2 h w img =
     \<lparr> height = slice_stop h (height img),
       width = slice_stop w (width img),
       trailing = trailing img,
       cells = map (take (slice_stop w (width img)))
                 (take (slice_stop h (height img)) (cells img)) \<rparr>"

section \<open>ImageProcessor.adjust\_image\_size\<close>

text \<open>
  \<^verbatim>\<open>
  h, w = image.shape[:2]
  w = w // self.step * self.step
  h = h // self.step * self.step
  return image[:h, :w]
  \<close>
  \<open>step\<close> is a Python \<^verbatim>\<open>int\<close>; \<^verbatim>\<open>//\<close> is floor division, as \<open>div\<close> on \<open>int\<close> is, and
  raises on a zero divisor.
\<close>

definition adjust_image_size :: "int \<Rightarrow> 'a ndarray \<Rightarrow> error + 'a ndarray" where
  "adjust_image_size step img =
     (if step = 0 then Inl (Raised ZeroDivisionError)
      else
        let h = int (height img);
            w = int (width img);
            w = w div step * step;
            h = h div step * step
        in Inr (slice2 h w img))"

section \<open>ImageProcessor.cut\_image\<close>

text \<open>
  The axis argument: \<^verbatim>\<open>0\<close> (rows) or \<^verbatim>\<open>1\<close> (columns), the two values the docstring of
  \<^verbatim>\<open>cut_image\<close> admits and the only ones \<^verbatim>\<open>process_image\<close> passes.
\<close>

datatype axis = Rows | Columns

fun extent :: "axis \<Rightarrow> 'a ndarray \<Rightarrow> nat" where
  "extent Rows a = height a"
| "extent Columns a = width a"

text \<open>
  \<^verbatim>\<open>np.arange(n) // step % 2 == 0\<close>. The array \<^verbatim>\<open>np.arange(n)\<close> holds signed 64-bit
  integers and \<open>step\<close> is a Python \<^verbatim>\<open>int\<close>: numpy (version 2) converts \<open>step\<close> to the
  type of the array and raises \<^verbatim>\<open>OverflowError\<close> when it does not fit, whatever the length
  of the array. The quotients and remainders of the elements, which are between 0 and
  \<open>n\<close>, stay in range. Division by zero does not arise: \<open>adjust_image_size\<close> has raised
  on a zero step before.
\<close>

definition fits_int64 :: "int \<Rightarrow> bool" where
  "fits_int64 k \<longleftrightarrow> - (2 ^ 63) \<le> k \<and> k < 2 ^ 63"

definition band_mask :: "int \<Rightarrow> nat \<Rightarrow> error + bool list" where
  "band_mask step n =
     (if fits_int64 step then Inr (map (\<lambda>i. (int i div step) mod 2 = 0) [0..<n])
      else Inl (Raised OverflowError))"

text \<open>
  Indexing by a boolean array keeps the positions where the mask is true, in order;
  numpy raises \<^verbatim>\<open>IndexError\<close> when the mask is not as long as the axis.
  \<open>index_by Rows mask a\<close> is \<^verbatim>\<open>a[mask]\<close> and \<open>index_by Columns mask a\<close> is \<^verbatim>\<open>a[:, mask]\<close>.
\<close>

definition select :: "bool list \<Rightarrow> 'b list \<Rightarrow> 'b list" where
  "select bmask xs = map fst (filter snd (zip xs bmask))"

fun index_by :: "axis \<Rightarrow> bool list \<Rightarrow> 'a ndarray \<Rightarrow> error + 'a ndarray" where
  "index_by Rows bmask a =
     (if length bmask \<noteq> height a then Inl (Raised IndexError)
      else Inr (a\<lparr>height := length (filter id bmask), cells := select bmask (cells a)\<rparr>))"
| "index_by Columns bmask a =
     (if length bmask \<noteq> width a then Inl (Raised IndexError)
      else Inr (a\<lparr>width := length (filter id bmask), cells := map (select bmask) (cells a)\<rparr>))"

text \<open>
  \<^verbatim>\<open>np.concatenate\<close> of two arrays along an axis, and of a list of arrays: every other
  dimension has to agree, and the list must not be empty.
\<close>

fun concatenate2 :: "axis \<Rightarrow> 'a ndarray \<Rightarrow> 'a ndarray \<Rightarrow> error + 'a ndarray" where
  "concatenate2 Rows a b =
     (if width a = width b \<and> trailing a = trailing b
      then Inr (a\<lparr>height := height a + height b, cells := cells a @ cells b\<rparr>)
      else Inl (Raised ValueError))"
| "concatenate2 Columns a b =
     (if height a = height b \<and> trailing a = trailing b
      then Inr (a\<lparr>width := width a + width b, cells := map2 (@) (cells a) (cells b)\<rparr>)
      else Inl (Raised ValueError))"

fun concatenate :: "'a ndarray list \<Rightarrow> axis \<Rightarrow> error + 'a ndarray" where
  "concatenate [] ax = Inl (Raised ValueError)"
| "concatenate [a] ax = Inr a"
| "concatenate (a # b # bs) ax =
     (case concatenate2 ax a b of Inl e \<Rightarrow> Inl e | Inr ab \<Rightarrow> concatenate (ab # bs) ax)"

text \<open>
  A PIL image holds a pixel buffer: \<^verbatim>\<open>Image.fromarray\<close> wraps one and \<^verbatim>\<open>np.array\<close>
  gives it back. \<^verbatim>\<open>image.size\<close> is (width, height).
\<close>

datatype 'a pil_image = Image "'a ndarray"

definition fromarray :: "'a ndarray \<Rightarrow> 'a pil_image" where
  "fromarray a = Image a"

fun np_array :: "'a pil_image \<Rightarrow> 'a ndarray" where
  "np_array (Image a) = a"

fun image_size :: "'a pil_image \<Rightarrow> nat \<times> nat" where
  "image_size (Image a) = (width a, height a)"

text \<open>
  \<^verbatim>\<open>
  image = self.adjust_image_size(image)
  mask = np.arange(image.shape[axis]) // self.step % 2 == 0
  image_np_1 = image[mask] if axis == 0 else image[:, mask]
  image_np_2 = image[~mask] if axis == 0 else image[:, ~mask]
  result_image = np.concatenate([image_np_1, image_np_2], axis=axis)
  return Image.fromarray(result_image)
  \<close>
\<close>

definition cut_image :: "int \<Rightarrow> 'a ndarray \<Rightarrow> axis \<Rightarrow> error + 'a pil_image" where
  "cut_image step img0 ax =
     and_then (adjust_image_size step img0) (\<lambda>img.
       and_then (band_mask step (extent ax img)) (\<lambda>bmask.
       and_then (index_by ax bmask img) (\<lambda>image_np_1.
       and_then (index_by ax (map Not bmask) img) (\<lambda>image_np_2.
       and_then (concatenate [image_np_1, image_np_2] ax) (\<lambda>result_image.
       Inr (fromarray result_image))))))"

section \<open>Files\<close>

text \<open>
  What opening a file gives: the file is missing (\<^verbatim>\<open>FileNotFoundError\<close>), opening or
  decoding it fails with another exception, or its content. The files that exist are
  a parameter of every operation that opens one.
\<close>

datatype 'b opened = NoSuchFile | OpenFailed exc_class | Opened 'b

section \<open>Configuration values\<close>

text \<open>
  A Python \<^verbatim>\<open>float\<close> is a double: a finite one is \<open>m * 2 ^ e\<close> for integers \<open>m\<close> and
  \<open>e\<close> (\<open>Finite m e\<close>; \<open>2.5\<close> is \<open>Finite 5 (- 1)\<close>), or it is infinite or not a number.
\<close>

datatype pyfloat = Finite int int | Infinite | NaN

text \<open>The real number that \<open>Finite m e\<close> stands for.\<close>

definition float_value :: "int \<Rightarrow> int \<Rightarrow> real" where
  "float_value m e =
     (if 0 \<le> e then real_of_int m * 2 ^ nat e else real_of_int m / 2 ^ nat (- e))"

text \<open>
  What \<^verbatim>\<open>yaml.safe_load\<close> returns: \<^verbatim>\<open>None\<close>, a \<^verbatim>\<open>bool\<close>, an \<^verbatim>\<open>int\<close>, a \<^verbatim>\<open>float\<close>, a
  \<^verbatim>\<open>str\<close>, a \<^verbatim>\<open>list\<close> or a \<^verbatim>\<open>dict\<close>. A \<^verbatim>\<open>dict\<close> is the list of its items.
  A string is the list of its code points, each below 256 (Latin-1).
\<close>

datatype yaml =
  YNull | YBool bool | YInt int | YFloat pyfloat | YStr string
  | YList "yaml list" | YDict "(yaml \<times> yaml) list"

text \<open>
  \<^verbatim>\<open>obj[key]\<close> for a string key: a \<^verbatim>\<open>dict\<close> raises \<^verbatim>\<open>KeyError\<close> when it lacks the key;
  \<^verbatim>\<open>None\<close> and numbers are not subscriptable, and a \<^verbatim>\<open>str\<close> or a \<^verbatim>\<open>list\<close> takes integer
  indices only: a \<^verbatim>\<open>TypeError\<close> each.
\<close>

fun getitem :: "yaml \<Rightarrow> string \<Rightarrow> error + yaml" where
  "getitem (YDict items) k =
     (case map_of items (YStr k) of None \<Rightarrow> Inl (Raised KeyError) | Some v \<Rightarrow> Inr v)"
| "getitem v k = Inl (Raised TypeError)"

text \<open>
  \<^verbatim>\<open>int(x)\<close> of a float truncates toward zero; it raises \<^verbatim>\<open>OverflowError\<close> on an
  infinity and \<^verbatim>\<open>ValueError\<close> on a NaN.
\<close>

fun int_of_float :: "pyfloat \<Rightarrow> error + int" where
  "int_of_float (Finite m e) =
     Inr (if 0 \<le> e then m * 2 ^ nat e else sgn m * (\<bar>m\<bar> div 2 ^ nat (- e)))"
| "int_of_float Infinite = Inl (Raised OverflowError)"
| "int_of_float NaN = Inl (Raised ValueError)"

text \<open>
  \<^verbatim>\<open>int(s)\<close> of a string, base ten, as CPython 3.11 does it: white space around the
  literal is dropped; then an optional sign and decimal digits, where one underscore may
  stand between two digits. Anything else is a \<^verbatim>\<open>ValueError\<close> (\<open>None\<close> here), and so is a
  literal of more than 4300 digits (the default of \<^verbatim>\<open>sys.get_int_max_str_digits()\<close>).
  The white space that \<^verbatim>\<open>int\<close> drops is the space, the characters 9 to 13, and of the
  code points above 127 the two that Unicode counts as white space, 0x85 and 0xA0; the
  separators 0x1C to 0x1F are not dropped.
\<close>

definition is_space :: "char \<Rightarrow> bool" where
  "is_space c \<longleftrightarrow> c \<in> set [CHR '' '', CHR 0x09, CHR 0x0A, CHR 0x0B, CHR 0x0C, CHR 0x0D,
                             CHR 0x85, CHR 0xA0]"

definition max_str_digits :: nat where
  "max_str_digits = 4300"

definition strip :: "string \<Rightarrow> string" where
  "strip s = rev (dropWhile is_space (rev (dropWhile is_space s)))"

definition digit_of :: "char \<Rightarrow> nat option" where
  "digit_of c =
     (let n = (of_char c :: nat) in if 48 \<le> n \<and> n \<le> 57 then Some (n - 48) else None)"

fun parse_digits :: "nat \<Rightarrow> string \<Rightarrow> nat option" where
  "parse_digits acc [] = Some acc"
| "parse_digits acc [c] =
     (case digit_of c of None \<Rightarrow> None | Some v \<Rightarrow> Some (10 * acc + v))"
| "parse_digits acc (c # d # ds) =
     (if c = CHR ''_'' then
        (case digit_of d of None \<Rightarrow> None | Some v \<Rightarrow> parse_digits (10 * acc + v) ds)
      else
        (case digit_of c of None \<Rightarrow> None | Some v \<Rightarrow> parse_digits (10 * acc + v) (d # ds)))"

definition parse_unsigned :: "string \<Rightarrow> nat option" where
  "parse_unsigned s =
     (if length (filter (\<lambda>c. digit_of c \<noteq> None) s) > max_str_digits then None
      else
        (case s of [] \<Rightarrow> None
         | c # cs \<Rightarrow> (case digit_of c of None \<Rightarrow> None | Some v \<Rightarrow> parse_digits v cs)))"

definition int_of_str :: "string \<Rightarrow> int option" where
  "int_of_str s =
     (case strip s of [] \<Rightarrow> None
      | c # cs \<Rightarrow>
          if c = CHR ''-'' then map_option (\<lambda>n. - int n) (parse_unsigned cs)
          else if c = CHR ''+'' then map_option int (parse_unsigned cs)
          else map_option int (parse_unsigned (c # cs)))"

text \<open>\<^verbatim>\<open>int(x)\<close> on a configuration value.\<close>

fun py_int :: "yaml \<Rightarrow> error + int" where
  "py_int YNull = Inl (Raised TypeError)"
| "py_int (YBool b) = Inr (if b then 1 else 0)"
| "py_int (YInt i) = Inr i"
| "py_int (YFloat f) = int_of_float f"
| "py_int (YStr s) = (case int_of_str s of None \<Rightarrow> Inl (Raised ValueError) | Some i \<Rightarrow> Inr i)"
| "py_int (YList xs) = Inl (Raised TypeError)"
| "py_int (YDict items) = Inl (Raised TypeError)"

section \<open>The bound on step: int(max(image.size) * 0.02)\<close>

text \<open>
  The product is a product of doubles. \<open>bitlen n\<close> is the number of binary digits of
  \<open>n\<close>; \<open>round53 m e\<close> rounds \<open>m * 2 ^ e\<close> to the nearest number with 53 significant
  bits, ties to the even one, as the conversion of an \<^verbatim>\<open>int\<close> to a \<^verbatim>\<open>float\<close> and the
  multiplication of two floats do. The literal \<^verbatim>\<open>0.02\<close> is the double
  \<open>5764607523034235 * 2 ^ - 58\<close>. The exponent range of a double is not modelled: PIL
  keeps the dimensions of an image in C \<^verbatim>\<open>int\<close>s, and the numbers here are far inside it.
\<close>

fun bitlen :: "nat \<Rightarrow> nat" where
  "bitlen n = (if n = 0 then 0 else Suc (bitlen (n div 2)))"

declare bitlen.simps [simp del]

definition round53 :: "nat \<Rightarrow> int \<Rightarrow> nat \<times> int" where
  "round53 m e =
     (if bitlen m \<le> 53 then (m, e)
      else
        let sh = bitlen m - 53;
            q = m div 2 ^ sh;
            r = m mod 2 ^ sh;
            half = 2 ^ (sh - 1)
        in (if r > half \<or> (r = half \<and> odd q) then q + 1 else q, e + int sh))"

definition float_of_nat :: "nat \<Rightarrow> nat \<times> int" where
  "float_of_nat n = round53 n 0"

definition float_mul :: "nat \<times> int \<Rightarrow> nat \<times> int \<Rightarrow> nat \<times> int" where
  "float_mul x y = round53 (fst x * fst y) (snd x + snd y)"

definition float_0_02 :: "nat \<times> int" where
  "float_0_02 = (5764607523034235, - 58)"

definition trunc_float :: "nat \<times> int \<Rightarrow> int" where
  "trunc_float x =
     (if 0 \<le> snd x then int (fst x) * 2 ^ nat (snd x) else int (fst x) div 2 ^ nat (- snd x))"

definition max_step_of :: "nat \<times> nat \<Rightarrow> int" where
  "max_step_of sz = trunc_float (float_mul (float_of_nat (max (fst sz) (snd sz))) float_0_02)"

section \<open>ConfigLoader\<close>

text \<open>
  \<^verbatim>\<open>
  try:
      with open(config_path, "r", encoding='utf-8') as file:
          return yaml.safe_load(file)
  except FileNotFoundError:
      raise FileNotFoundError(f"Configuration file not found at path: {config_path}")
  \<close>
  \<open>files\<close> gives, for a path, the value the YAML parser reads from the file there.
\<close>

definition load_config :: "(string \<Rightarrow> yaml opened) \<Rightarrow> string \<Rightarrow> error + yaml" where
  "load_config files config_path =
     (case files config_path of
        NoSuchFile \<Rightarrow> Inl ConfigFileNotFound
      | OpenFailed c \<Rightarrow> if c = FileNotFoundError then Inl ConfigFileNotFound else Inl (Raised c)
      | Opened config \<Rightarrow> Inr config)"

text \<open>
  \<^verbatim>\<open>
  try:
      image_path = config['numpy_basics']['image_path']
      step_str = config['numpy_basics']['step']
  except KeyError:
      raise ValueError("Invalid configuration data. 'image_path' or 'step' is missing.")
  try:
      step = int(step_str)
  except ValueError:
      raise ValueError(f"The provided step value is not a valid integer: {step_str}")
  try:
      image = Image.open(image_path)
      max_step_value = int(max(image.size) * 0.02)  # 2% of the image size
  except FileNotFoundError:
      raise FileNotFoundError(f"Image file not found at path: {image_path}")
  if step < 1 or step > max_step_value:
      raise ValueError(f"The step value is not within the allowed range: ...")
  return image_path, step
  \<close>
  \<open>images\<close> gives, for the value passed as path, what \<^verbatim>\<open>Image.open\<close> does with it.
\<close>

definition lookup_keys :: "yaml \<Rightarrow> error + (yaml \<times> yaml)" where
  "lookup_keys config =
     and_then (getitem config ''numpy_basics'') (\<lambda>section1.
     and_then (getitem section1 ''image_path'') (\<lambda>image_path.
     and_then (getitem config ''numpy_basics'') (\<lambda>section2.
     and_then (getitem section2 ''step'') (\<lambda>step_str.
     Inr (image_path, step_str)))))"

definition open_image :: "(yaml \<Rightarrow> 'a pil_image opened) \<Rightarrow> yaml \<Rightarrow> error + 'a pil_image" where
  "open_image images image_path =
     (case images image_path of
        NoSuchFile \<Rightarrow> Inl ImageFileNotFound
      | OpenFailed c \<Rightarrow> if c = FileNotFoundError then Inl ImageFileNotFound else Inl (Raised c)
      | Opened img \<Rightarrow> Inr img)"

definition validate_config ::
  "(yaml \<Rightarrow> 'a pil_image opened) \<Rightarrow> yaml \<Rightarrow> error + (yaml \<times> int)" where
  "validate_config images config =
     (case lookup_keys config of
        Inl e \<Rightarrow> Inl (if class_of e = KeyError then MissingKey else e)
      | Inr (image_path, step_str) \<Rightarrow>
          (case py_int step_str of
             Inl e \<Rightarrow> Inl (if class_of e = ValueError then NotAnInteger else e)
           | Inr step \<Rightarrow>
               (case open_image images image_path of
                  Inl e \<Rightarrow> Inl e
                | Inr img \<Rightarrow>
                    let max_step_value = max_step_of (image_size img) in
                    if step < 1 \<or> step > max_step_value
                    then Inl (StepNotInRange max_step_value step)
                    else Inr (image_path, step))))"

section \<open>ImageProcessor.process\_image and main\<close>

text \<open>
  \<^verbatim>\<open>
  try:
      image = Image.open(image_path)
  except FileNotFoundError as e:
      raise FileNotFoundError(f"Image file not found at path: {image_path}") from e
  image_np = self.adjust_image_size(np.array(image))
  image = Image.fromarray(image_np)
  vertical_image = self.cut_image(image_np, axis=1)
  horizontal_image = self.cut_image(np.array(vertical_image), axis=0)
  all_images = np.concatenate([np.array(image), np.array(vertical_image),
                               np.array(horizontal_image)], axis=0)
  return Image.fromarray(all_images)
  \<close>
\<close>

definition process_image ::
  "(yaml \<Rightarrow> 'a pil_image opened) \<Rightarrow> int \<Rightarrow> yaml \<Rightarrow> error + 'a pil_image" where
  "process_image images step image_path =
     and_then (open_image images image_path) (\<lambda>img0.
     and_then (adjust_image_size step (np_array img0)) (\<lambda>image_np.
       let img = fromarray image_np in
       and_then (cut_image step image_np Columns) (\<lambda>vertical_image.
       and_then (cut_image step (np_array vertical_image) Rows) (\<lambda>horizontal_image.
       and_then (concatenate [np_array img, np_array vertical_image,
                              np_array horizontal_image] Rows) (\<lambda>all_images.
       Inr (fromarray all_images))))))"

text \<open>
  \<^verbatim>\<open>
  config_path = "config.yaml"
  try:
      config = ConfigLoader.load_config(config_path)
      image_path, step = ConfigLoader.validate_config(config)
      processor = ImageProcessor(step)
      all_images = processor.process_image(image_path)
      all_images.show()
  except (FileNotFoundError, ValueError) as e:
      print(e)
  \<close>
  The run shows the composite, prints the exception it caught, or ends with an
  exception that the handler does not catch.
\<close>

datatype 'a outcome = Shown "'a pil_image" | Printed error | Uncaught error

definition main :: "(string \<Rightarrow> yaml opened) \<Rightarrow> (yaml \<Rightarrow> 'a pil_image opened) \<Rightarrow> 'a outcome" where
  "main files images =
     (case and_then (load_config files ''config.yaml'') (\<lambda>config.
           and_then (validate_config images config) (\<lambda>(image_path, step).
           process_image images step image_path)) of
        Inl e \<Rightarrow>
          if class_of e = FileNotFoundError \<or> class_of e = ValueError
          then Printed e else Uncaught e
      | Inr all_images \<Rightarrow> Shown all_images)"

section \<open>The interleaving in the words of the specification\<close>

text \<open>
  These definitions follow the specification, not the source; the theorems below
  compare \<open>cut_image\<close> with them. A position \<open>i\<close> along the axis is in an even band
  when \<open>(i // step) % 2 == 0\<close>; \<open>band_order\<close> lists the positions of the even bands in
  their order and then those of the odd bands in their order; \<open>take_along\<close> is the buffer
  that holds, at position \<open>k\<close> of the axis, what the given buffer holds at position
  \<open>idx ! k\<close>. \<open>pixel_count\<close> is the number of (row, column) positions.
\<close>

definition even_band :: "int \<Rightarrow> nat \<Rightarrow> bool" where
  "even_band step i \<longleftrightarrow> (int i div step) mod 2 = 0"

definition band_order :: "int \<Rightarrow> nat \<Rightarrow> nat list" where
  "band_order step n =
     filter (even_band step) [0..<n] @ filter (\<lambda>i. \<not> even_band step i) [0..<n]"

fun take_along :: "axis \<Rightarrow> nat list \<Rightarrow> 'a ndarray \<Rightarrow> 'a ndarray" where
  "take_along Rows idx a = a\<lparr>height := length idx, cells := map (\<lambda>i. cells a ! i) idx\<rparr>"
| "take_along Columns idx a =
     a\<lparr>width := length idx, cells := map (\<lambda>r. map (\<lambda>j. r ! j) idx) (cells a)\<rparr>"

definition pixel_count :: "'a ndarray \<Rightarrow> nat" where
  "pixel_count a = height a * width a"

section \<open>Example inputs\<close>

text \<open>Small grey-scale buffers on which the theorems below are instantiated.\<close>

definition img33 :: "nat ndarray" where
  "img33 = \<lparr>height = 3, width = 3, trailing = [], cells = [[1, 2, 3], [4, 5, 6], [7, 8, 9]]\<rparr>"

definition img46 :: "nat ndarray" where
  "img46 = \<lparr>height = 4, width = 6, trailing = [],
     cells = [[1, 2, 3, 4, 5, 6], [7, 8, 9, 10, 11, 12],
              [13, 14, 15, 16, 17, 18], [19, 20, 21, 22, 23, 24]]\<rparr>"

definition img37 :: "nat ndarray" where
  "img37 = \<lparr>height = 3, width = 7, trailing = [],
     cells = [[1, 2, 3, 4, 5, 6, 7], [8, 9, 10, 11, 12, 13, 14],
              [15, 16, 17, 18, 19, 20, 21]]\<rparr>"

definition img23 :: "nat ndarray" where
  "img23 = \<lparr>height = 2, width = 3, trailing = [], cells = [[1, 2, 3], [4, 5, 6]]\<rparr>"

text \<open>The configuration that holds exactly the two keys under \<open>numpy_basics\<close>.\<close>

definition mk_config :: "yaml \<Rightarrow> yaml \<Rightarrow> yaml" where
  "mk_config image_path step_str =
     YDict [(YStr ''numpy_basics'',
             YDict [(YStr ''image_path'', image_path), (YStr ''step'', step_str)])]"

definition img100 :: "nat ndarray" where
  "img100 = \<lparr>height = 100, width = 100, trailing = [], cells = replicate 100 (replicate 100 0)\<rparr>"

definition img_wide :: "nat ndarray" where
  "img_wide = \<lparr>height = 10, width = 1000, trailing = [], cells = replicate 10 (replicate 1000 0)\<rparr>"

section \<open>Properties of adjust\_image\_size\<close>

lemma floor_multiple_bounds:
  fixes n step :: int
  assumes "1 \<le> step" "0 \<le> n"
  shows "0 \<le> n div step * step" "n div step * step \<le> n" "n - step < n div step * step"
proof -
  have pos: "0 < step" using assms by simp
  have eq: "n = n div step * step + n mod step" by simp
  have m0: "0 \<le> n mod step" and m1: "n mod step < step" using pos by simp_all
  from assms pos show "0 \<le> n div step * step"
    by (simp add: pos_imp_zdiv_nonneg_iff)
  from eq m0 show "n div step * step \<le> n" by linarith
  from eq m1 show "n - step < n div step * step" by linarith
qed

lemma slice_stop_floor_multiple:
  assumes "1 \<le> step"
  shows "int (slice_stop (int n div step * step) n) = int n div step * step"
proof -
  have "0 \<le> int n div step * step" "int n div step * step \<le> int n"
    using floor_multiple_bounds [OF assms, of "int n"] by simp_all
  then show ?thesis by (simp add: slice_stop_def)
qed

lemma slice_stop_le: "slice_stop s n \<le> n"
  by (cases "s < 0") (simp_all add: slice_stop_def)

lemma wf_slice2:
  assumes "wf_ndarray img"
  shows "wf_ndarray (slice2 h w img)"
proof -
  let ?h = "slice_stop h (height img)" and ?w = "slice_stop w (width img)"
  from assms have len: "length (cells img) = height img"
    and row: "\<And>r. r \<in> set (cells img) \<Longrightarrow> length r = width img"
    by (simp_all add: wf_ndarray_def list_all_iff)
  have "length (take ?h (cells img)) = ?h"
    using slice_stop_le [of h "height img"] by (simp add: len)
  moreover have "length (take ?w r) = ?w" if "r \<in> set (take ?h (cells img))" for r
    using row [OF in_set_takeD [OF that]] slice_stop_le [of w "width img"] by simp
  moreover from assms have "?h < 2 ^ 63"
    using slice_stop_le [of h "height img"] by (simp add: wf_ndarray_def)
  moreover from assms have "?w < 2 ^ 63"
    using slice_stop_le [of w "width img"] by (simp add: wf_ndarray_def)
  ultimately show ?thesis
    by (simp add: wf_ndarray_def slice2_def list_all_iff)
qed

lemma cell_slice2:
  assumes "i < height (slice2 h w img)" "j < width (slice2 h w img)" "wf_ndarray img"
  shows "cell (slice2 h w img) i j = cell img i j"
proof -
  from assms(1) have i: "i < slice_stop h (height img)" by (simp add: slice2_def)
  from assms(2) have j: "j < slice_stop w (width img)" by (simp add: slice2_def)
  from assms(3) have len: "length (cells img) = height img" by (simp add: wf_ndarray_def)
  from i slice_stop_le [of h "height img"] have "i < length (cells img)" by (simp add: len)
  with i j show ?thesis by (simp add: cell_def slice2_def)
qed

lemma adjust_image_size_Inr:
  "step \<noteq> 0 \<Longrightarrow> adjust_image_size step img =
     Inr (slice2 (int (height img) div step * step) (int (width img) div step * step) img)"
  by (simp add: adjust_image_size_def Let_def)

text \<open>
  Claim C3. For a buffer of height \<open>h\<close> and width \<open>w\<close> and a step of at least 1,
  \<open>adjust_image_size\<close> returns the top-left crop whose height and width are
  \<open>h div step * step\<close> and \<open>w div step * step\<close>: both are multiples of \<open>step\<close>, at most
  the original extent and more than the original extent minus \<open>step\<close>; every cell kept
  is the cell of the input at the same coordinates, and the trailing (channel)
  dimensions are unchanged.
\<close>

theorem adjust_image_size_crop:
  assumes "wf_ndarray img" and "1 \<le> step"
  shows "\<exists>out. adjust_image_size step img = Inr out
     \<and> int (height out) = int (height img) div step * step
     \<and> int (width out) = int (width img) div step * step
     \<and> step dvd int (height out) \<and> step dvd int (width out)
     \<and> height out \<le> height img \<and> width out \<le> width img
     \<and> int (height img) - step < int (height out)
     \<and> int (width img) - step < int (width out)
     \<and> (\<forall>i j. i < height out \<and> j < width out \<longrightarrow> cell out i j = cell img i j)
     \<and> trailing out = trailing img \<and> wf_ndarray out"
proof -
  let ?h = "int (height img) div step * step"
  let ?w = "int (width img) div step * step"
  let ?out = "slice2 ?h ?w img"
  from assms(2) have nz: "step \<noteq> 0" by simp
  have run: "adjust_image_size step img = Inr ?out"
    using nz by (rule adjust_image_size_Inr)
  have h: "int (height ?out) = ?h"
    using slice_stop_floor_multiple [OF assms(2)] by (simp add: slice2_def)
  have w: "int (width ?out) = ?w"
    using slice_stop_floor_multiple [OF assms(2)] by (simp add: slice2_def)
  have dh: "step dvd int (height ?out)" unfolding h by simp
  have dw: "step dvd int (width ?out)" unfolding w by simp
  have le: "height ?out \<le> height img" "width ?out \<le> width img"
    by (simp_all add: slice2_def slice_stop_le)
  have gh: "int (height img) - step < int (height ?out)"
    unfolding h using floor_multiple_bounds(3) [OF assms(2), of "int (height img)"] by simp
  have gw: "int (width img) - step < int (width ?out)"
    unfolding w using floor_multiple_bounds(3) [OF assms(2), of "int (width img)"] by simp
  have px: "\<forall>i j. i < height ?out \<and> j < width ?out \<longrightarrow> cell ?out i j = cell img i j"
    using cell_slice2 [OF _ _ assms(1)] by blast
  have tr: "trailing ?out = trailing img" by (simp add: slice2_def)
  have wf: "wf_ndarray ?out" using assms(1) by (rule wf_slice2)
  from run h w dh dw le gh gw px tr wf show ?thesis by blast
qed

theorem adjust_image_size_crop_witness:
  "wf_ndarray img33 \<and> (1::int) \<le> 2 \<and>
   adjust_image_size 2 img33 = Inr \<lparr>height = 2, width = 2, trailing = [], cells = [[1,2],[4,5]]\<rparr>"
  using adjust_image_size_crop [of img33 2]
  by (simp add: wf_ndarray_def img33_def adjust_image_size_def slice2_def slice_stop_def)


section \<open>Properties of cut\_image\<close>

lemma select_upt:
  "select (map P [0..<length xs]) xs = map (\<lambda>i. xs ! i) (filter P [0..<length xs])"
proof (induction xs rule: rev_induct)
  case Nil
  show ?case by (simp add: select_def)
next
  case (snoc x xs)
  have old: "map (\<lambda>i. (xs @ [x]) ! i) (filter P [0..<length xs])
      = map (\<lambda>i. xs ! i) (filter P [0..<length xs])"
    by (rule map_cong) (simp_all add: nth_append)
  have "select (map P [0..<length (xs @ [x])]) (xs @ [x])
      = select (map P [0..<length xs]) xs @ (if P (length xs) then [x] else [])"
    by (simp add: select_def)
  also have "\<dots> = map (\<lambda>i. xs ! i) (filter P [0..<length xs])
      @ (if P (length xs) then [x] else [])"
    by (simp add: snoc.IH)
  also have "\<dots> = map (\<lambda>i. (xs @ [x]) ! i) (filter P [0..<length (xs @ [x])])"
    by (simp add: old)
  finally show ?case .
qed

lemma count_mask: "length (filter id (map P xs)) = length (filter P xs)"
  by (induction xs) simp_all

lemma band_mask_eq:
  "fits_int64 step \<Longrightarrow> band_mask step n = Inr (map (even_band step) [0..<n])"
  by (simp add: band_mask_def even_band_def)

lemma band_mask_overflow:
  "\<not> fits_int64 step \<Longrightarrow> band_mask step n = Inl (Raised OverflowError)"
  by (simp add: band_mask_def)

lemma not_band_mask_eq:
  "map Not (map (even_band step) [0..<n]) = map (\<lambda>i. \<not> even_band step i) [0..<n]"
  by simp

lemma map2_append_maps:
  "map2 (@) (map f xs) (map g xs) = map (\<lambda>x. f x @ g x) xs"
  by (induction xs) simp_all

lemma index_by_Rows_upt:
  assumes "length (cells a) = height a"
  shows "index_by Rows (map P [0..<height a]) a =
    Inr (a\<lparr>height := length (filter P [0..<height a]),
           cells := map (\<lambda>i. cells a ! i) (filter P [0..<height a])\<rparr>)"
  using select_upt [of P "cells a"] assms by (simp add: count_mask)

lemma index_by_Columns_upt:
  assumes "\<And>r. r \<in> set (cells a) \<Longrightarrow> length r = width a"
  shows "index_by Columns (map P [0..<width a]) a =
    Inr (a\<lparr>width := length (filter P [0..<width a]),
           cells := map (\<lambda>r. map (\<lambda>j. r ! j) (filter P [0..<width a])) (cells a)\<rparr>)"
proof -
  have "map (select (map P [0..<width a])) (cells a)
      = map (\<lambda>r. map (\<lambda>j. r ! j) (filter P [0..<width a])) (cells a)"
  proof (rule map_cong [OF refl])
    fix r assume "r \<in> set (cells a)"
    then have "length r = width a" by (rule assms)
    with select_upt [of P r]
    show "select (map P [0..<width a]) r = map (\<lambda>j. r ! j) (filter P [0..<width a])"
      by simp
  qed
  then show ?thesis by (simp add: count_mask)
qed

lemma interleave_aligned:
  assumes "wf_ndarray a"
  shows "and_then (index_by ax (map (even_band step) [0..<extent ax a]) a) (\<lambda>image_np_1.
         and_then (index_by ax (map Not (map (even_band step) [0..<extent ax a])) a)
           (\<lambda>image_np_2.
         and_then (concatenate [image_np_1, image_np_2] ax) (\<lambda>result_image.
         Inr (fromarray result_image))))
       = Inr (fromarray (take_along ax (band_order step (extent ax a)) a))"
proof -
  from assms have len: "length (cells a) = height a"
    and row: "\<And>r. r \<in> set (cells a) \<Longrightarrow> length r = width a"
    by (simp_all add: wf_ndarray_def list_all_iff)
  show ?thesis
  proof (cases ax)
    case Rows
    have i1: "index_by Rows (map (even_band step) [0..<height a]) a =
        Inr (a\<lparr>height := length (filter (even_band step) [0..<height a]),
               cells := map (\<lambda>i. cells a ! i) (filter (even_band step) [0..<height a])\<rparr>)"
      by (rule index_by_Rows_upt [OF len])
    have i2: "index_by Rows (map Not (map (even_band step) [0..<height a])) a =
        Inr (a\<lparr>height := length (filter (\<lambda>i. \<not> even_band step i) [0..<height a]),
               cells := map (\<lambda>i. cells a ! i)
                 (filter (\<lambda>i. \<not> even_band step i) [0..<height a])\<rparr>)"
      unfolding not_band_mask_eq by (rule index_by_Rows_upt [OF len])
    show ?thesis
      unfolding Rows extent.simps i1 i2
      by (simp add: and_then_def band_order_def)
  next
    case Columns
    have i1: "index_by Columns (map (even_band step) [0..<width a]) a =
        Inr (a\<lparr>width := length (filter (even_band step) [0..<width a]),
               cells := map (\<lambda>r. map (\<lambda>j. r ! j) (filter (even_band step) [0..<width a]))
                 (cells a)\<rparr>)"
      by (rule index_by_Columns_upt [OF row])
    have i2: "index_by Columns (map Not (map (even_band step) [0..<width a])) a =
        Inr (a\<lparr>width := length (filter (\<lambda>i. \<not> even_band step i) [0..<width a]),
               cells := map (\<lambda>r. map (\<lambda>j. r ! j)
                 (filter (\<lambda>i. \<not> even_band step i) [0..<width a])) (cells a)\<rparr>)"
      unfolding not_band_mask_eq by (rule index_by_Columns_upt [OF row])
    show ?thesis
      unfolding Columns extent.simps i1 i2
      by (simp add: and_then_def band_order_def map2_append_maps)
  qed
qed

lemma and_then_Inr: "and_then (Inr x) f = f x"
  by (simp add: and_then_def)

lemma cut_image_eq:
  assumes "wf_ndarray img" "step \<noteq> 0" "fits_int64 step"
  shows "cut_image step img ax =
     Inr (fromarray (take_along ax
       (band_order step
          (extent ax (slice2 (int (height img) div step * step) (int (width img) div step * step) img)))
       (slice2 (int (height img) div step * step) (int (width img) div step * step) img)))"
proof -
  let ?a = "slice2 (int (height img) div step * step) (int (width img) div step * step) img"
  have wf: "wf_ndarray ?a" using assms(1) by (rule wf_slice2)
  show ?thesis
    by (simp only: cut_image_def adjust_image_size_Inr [OF assms(2)]
        band_mask_eq [OF assms(3)] and_then_Inr interleave_aligned [OF wf])
qed

lemma band_order_perm:
  "distinct (band_order step n)" "set (band_order step n) = {0..<n}"
  "length (band_order step n) = n"
proof -
  show "distinct (band_order step n)" by (auto simp: band_order_def)
  show "set (band_order step n) = {0..<n}" by (auto simp: band_order_def)
  have "length (band_order step n) = length [0..<n]"
    unfolding band_order_def length_append
    using sum_length_filter_compl [of "even_band step" "[0..<n]"] by simp
  then show "length (band_order step n) = n" by simp
qed

lemma cut_image_overflow:
  assumes "step \<noteq> 0" "\<not> fits_int64 step"
  shows "cut_image step img ax = Inl (Raised OverflowError)"
  by (simp add: cut_image_def adjust_image_size_Inr [OF assms(1)]
      band_mask_overflow [OF assms(2)] and_then_def)

lemma fits_int64_step: "1 \<le> step \<Longrightarrow> step < 2 ^ 63 \<Longrightarrow> fits_int64 step"
  by (simp add: fits_int64_def)

lemma shape_take_along:
  "length idx = extent ax a \<Longrightarrow> shape (take_along ax idx a) = shape a"
  by (cases ax) (simp_all add: shape_def)


lemma band_order_unfold:
  "band_order step n = filter (\<lambda>i. (int i div step) mod 2 = 0) [0..<n]
      @ filter (\<lambda>i. (int i div step) mod 2 \<noteq> 0) [0..<n]"
  by (simp add: band_order_def even_band_def [abs_def])

lemma slice2_id:
  assumes "wf_ndarray img" "step dvd int (height img)" "step dvd int (width img)"
  shows "slice2 (int (height img) div step * step) (int (width img) div step * step) img = img"
proof -
  from assms(1) have len: "length (cells img) = height img"
    and row: "\<And>r. r \<in> set (cells img) \<Longrightarrow> length r = width img"
    by (simp_all add: wf_ndarray_def list_all_iff)
  have h: "int (height img) div step * step = int (height img)"
    using assms(2) by simp
  have w: "int (width img) div step * step = int (width img)"
    using assms(3) by simp
  have rows: "map (take (width img)) (cells img) = cells img"
    by (rule map_idI) (simp add: row)
  show ?thesis
    unfolding h w by (simp add: slice2_def slice_stop_def len rows)
qed

lemma take_along_id:
  assumes "wf_ndarray a"
  shows "take_along ax [0..<extent ax a] a = a"
proof -
  from assms have len: "length (cells a) = height a"
    and row: "\<And>r. r \<in> set (cells a) \<Longrightarrow> length r = width a"
    by (simp_all add: wf_ndarray_def list_all_iff)
  show ?thesis
  proof (cases ax)
    case Rows
    have "map (\<lambda>i. cells a ! i) [0..<height a] = cells a"
      using map_nth [of "cells a"] by (simp add: len)
    then show ?thesis by (simp add: Rows)
  next
    case Columns
    have "map (\<lambda>r. map (\<lambda>j. r ! j) [0..<width a]) (cells a) = cells a"
    proof (rule map_idI)
      fix r assume "r \<in> set (cells a)"
      then have "length r = width a" by (rule row)
      with map_nth [of r] show "map (\<lambda>j. r ! j) [0..<width a] = r" by simp
    qed
    then show ?thesis by (simp add: Columns)
  qed
qed

lemma first_band_even:
  assumes "1 \<le> step" "int n \<le> step" "i \<in> set [0..<n]"
  shows "even_band step i"
proof -
  from assms have "0 \<le> int i" "int i < step" by simp_all
  then have "int i div step = 0" by simp
  then show ?thesis by (simp add: even_band_def)
qed

lemma band_order_single:
  assumes "1 \<le> step" "int n \<le> step"
  shows "filter (even_band step) [0..<n] = [0..<n]"
    and "filter (\<lambda>i. \<not> even_band step i) [0..<n] = []"
    and "band_order step n = [0..<n]"
proof -
  show 1: "filter (even_band step) [0..<n] = [0..<n]"
    using first_band_even [OF assms] by (simp add: filter_id_conv)
  show 2: "filter (\<lambda>i. \<not> even_band step i) [0..<n] = []"
    using first_band_even [OF assms] by (simp add: filter_empty_conv)
  show "band_order step n = [0..<n]"
    unfolding band_order_def 1 2 by simp
qed

lemma extent_slice2:
  assumes "1 \<le> step"
  shows "int (extent ax (slice2 (int (height img) div step * step)
                                (int (width img) div step * step) img))
       = int (extent ax img) div step * step"
  using slice_stop_floor_multiple [OF assms] by (cases ax) (simp_all add: slice2_def)

text \<open>
  Claim C1 says that \<open>cut_image\<close> returns the stable partition for every step of at
  least 1. It does not for a step of \<open>2 ^ 63\<close> or more: the division of the 64-bit array
  of positions by such a step raises \<^verbatim>\<open>OverflowError\<close>.
\<close>

theorem cut_image_step_overflow_counterexample:
  "(1::int) \<le> 2 ^ 63 \<and> wf_ndarray img33
   \<and> cut_image (2 ^ 63) img33 Rows = Inl (Raised OverflowError)
   \<and> cut_image (2 ^ 63) img33 Columns = Inl (Raised OverflowError)"
proof -
  have nz: "(2::int) ^ 63 \<noteq> 0" by simp
  have nf: "\<not> fits_int64 (2 ^ 63)" by (simp add: fits_int64_def)
  have wf: "wf_ndarray img33" by (simp add: wf_ndarray_def img33_def)
  from cut_image_overflow [OF nz nf, of img33 Rows]
    cut_image_overflow [OF nz nf, of img33 Columns] wf
  show ?thesis by simp
qed

text \<open>
  Claim C1, amended. For every buffer, either axis and every step of at least 1 and
  below \<open>2 ^ 63\<close>, \<open>cut_image\<close> first aligns the buffer (the top-left crop to multiples
  of the step) and then returns a stable partition of the positions of the aligned
  buffer along the axis: position \<open>i\<close> is in the even group iff
  \<open>(i div step) mod 2 = 0\<close>; the output holds the even positions in their order and then
  the odd positions in their order; every position of the aligned buffer occurs exactly
  once; and the output has the shape of the aligned buffer.
\<close>

theorem cut_image_stable_partition:
  assumes "wf_ndarray img" and "1 \<le> step" and "step < 2 ^ 63"
  shows "\<exists>aligned order out.
      adjust_image_size step img = Inr aligned
    \<and> int (height aligned) = int (height img) div step * step
    \<and> int (width aligned) = int (width img) div step * step
    \<and> trailing aligned = trailing img
    \<and> (\<forall>i j. i < height aligned \<and> j < width aligned \<longrightarrow> cell aligned i j = cell img i j)
    \<and> order = filter (\<lambda>i. (int i div step) mod 2 = 0) [0..<extent ax aligned]
            @ filter (\<lambda>i. (int i div step) mod 2 \<noteq> 0) [0..<extent ax aligned]
    \<and> cut_image step img ax = Inr (fromarray out)
    \<and> out = take_along ax order aligned
    \<and> distinct order \<and> set order = {0..<extent ax aligned}
    \<and> shape out = shape aligned"
proof -
  let ?a = "slice2 (int (height img) div step * step) (int (width img) div step * step) img"
  let ?order = "band_order step (extent ax ?a)"
  from assms(2) have nz: "step \<noteq> 0" by simp
  from assms(2,3) have fits: "fits_int64 step" by (rule fits_int64_step)
  have 1: "adjust_image_size step img = Inr ?a" using nz by (rule adjust_image_size_Inr)
  have h: "int (height ?a) = int (height img) div step * step"
    using extent_slice2 [OF assms(2), of Rows img] by simp
  have w: "int (width ?a) = int (width img) div step * step"
    using extent_slice2 [OF assms(2), of Columns img] by simp
  have t: "trailing ?a = trailing img" by (simp add: slice2_def)
  have c: "\<forall>i j. i < height ?a \<and> j < width ?a \<longrightarrow> cell ?a i j = cell img i j"
    using cell_slice2 [OF _ _ assms(1)] by blast
  have 2: "?order = filter (\<lambda>i. (int i div step) mod 2 = 0) [0..<extent ax ?a]
            @ filter (\<lambda>i. (int i div step) mod 2 \<noteq> 0) [0..<extent ax ?a]"
    by (rule band_order_unfold)
  have 3: "cut_image step img ax = Inr (fromarray (take_along ax ?order ?a))"
    using assms(1) nz fits by (rule cut_image_eq)
  have 4: "distinct ?order" "set ?order = {0..<extent ax ?a}"
    by (rule band_order_perm)+
  have 5: "shape (take_along ax ?order ?a) = shape ?a"
    by (rule shape_take_along) (rule band_order_perm)
  from 1 h w t c 2 3 4 5 show ?thesis by blast
qed

theorem cut_image_stable_partition_witness:
  "wf_ndarray img37 \<and> (1::int) \<le> 2 \<and> (2::int) < 2 ^ 63
   \<and> adjust_image_size 2 img37 = Inr
       \<lparr>height = 2, width = 6, trailing = [],
        cells = [[1, 2, 3, 4, 5, 6], [8, 9, 10, 11, 12, 13]]\<rparr>
   \<and> cut_image 2 img37 Columns = Inr (fromarray
       \<lparr>height = 2, width = 6, trailing = [],
        cells = [[1, 2, 5, 6, 3, 4], [8, 9, 12, 13, 10, 11]]\<rparr>)"
proof -
  have wf: "wf_ndarray img37" by (simp add: wf_ndarray_def img37_def)
  have al: "adjust_image_size 2 img37 = Inr
       \<lparr>height = 2, width = 6, trailing = [],
        cells = [[1, 2, 3, 4, 5, 6], [8, 9, 10, 11, 12, 13]]\<rparr>"
    by code_simp
  have run: "cut_image 2 img37 Columns = Inr (fromarray
       \<lparr>height = 2, width = 6, trailing = [],
        cells = [[1, 2, 5, 6, 3, 4], [8, 9, 12, 13, 10, 11]]\<rparr>)"
    by code_simp
  from cut_image_stable_partition [OF wf, of 2 Columns] wf al run show ?thesis by simp
qed

lemma pixel_count_take_along:
  "length idx = extent ax a \<Longrightarrow> pixel_count (take_along ax idx a) = pixel_count a"
  by (cases ax) (simp_all add: pixel_count_def)

lemma trailing_take_along: "trailing (take_along ax idx a) = trailing a"
  by (cases ax) simp_all

text \<open>
  Claim C5 says that, for every step of at least 1, the output of \<open>cut_image\<close> has the
  pixel count of its input buffer. It does not when the input is not aligned: on the
  3 x 3 buffer with step 2 the output has 4 positions and the input 9, because
  \<open>cut_image\<close> crops first. And there is no output for a step of \<open>2 ^ 63\<close>, which does not
  fit the 64-bit array of positions.
\<close>

theorem cut_image_pixel_count_counterexample:
  "map_sum id (pixel_count \<circ> np_array) (cut_image 2 img33 Rows) = Inr 4
   \<and> pixel_count img33 = 9
   \<and> map_sum id (pixel_count \<circ> np_array) (cut_image (2 ^ 63) img33 Rows)
       = Inl (Raised OverflowError)"
proof -
  have a: "map_sum id (pixel_count \<circ> np_array) (cut_image 2 img33 Rows) = Inr 4"
    "pixel_count img33 = 9"
    by code_simp+
  have nz: "(2::int) ^ 63 \<noteq> 0" by simp
  have nf: "\<not> fits_int64 (2 ^ 63)" by (simp add: fits_int64_def)
  have "cut_image (2 ^ 63) img33 Rows = Inl (Raised OverflowError)"
    using nz nf by (rule cut_image_overflow)
  then have "map_sum id (pixel_count \<circ> np_array) (cut_image (2 ^ 63) img33 Rows)
       = Inl (Raised OverflowError)"
    by (simp only: map_sum.simps id_apply)
  with a show ?thesis by blast
qed

text \<open>
  Claim C5, amended. For every buffer, either axis and every step of at least 1 and
  below \<open>2 ^ 63\<close>, the output of \<open>cut_image\<close> has the pixel count, the shape and the trailing (channel)
  dimensions of the aligned buffer, and it is the aligned buffer with the positions of
  the axis permuted; so it has the pixel count and shape of the input itself whenever
  the height and the width of the input are multiples of the step.
\<close>

theorem cut_image_preserves_aligned_size:
  assumes "wf_ndarray img" and "1 \<le> step" and "step < 2 ^ 63"
  shows "\<exists>aligned out.
      adjust_image_size step img = Inr aligned
    \<and> cut_image step img ax = Inr (fromarray out)
    \<and> pixel_count out = pixel_count aligned
    \<and> trailing out = trailing aligned \<and> trailing out = trailing img
    \<and> shape out = shape aligned
    \<and> out = take_along ax (band_order step (extent ax aligned)) aligned
    \<and> distinct (band_order step (extent ax aligned))
    \<and> set (band_order step (extent ax aligned)) = {0..<extent ax aligned}
    \<and> (step dvd int (height img) \<and> step dvd int (width img) \<longrightarrow>
          aligned = img \<and> pixel_count out = pixel_count img \<and> shape out = shape img)"
proof -
  let ?a = "slice2 (int (height img) div step * step) (int (width img) div step * step) img"
  let ?order = "band_order step (extent ax ?a)"
  let ?out = "take_along ax ?order ?a"
  from assms(2) have nz: "step \<noteq> 0" by simp
  have len: "length ?order = extent ax ?a" by (rule band_order_perm)
  have 1: "adjust_image_size step img = Inr ?a" using nz by (rule adjust_image_size_Inr)
  from assms(2,3) have fits: "fits_int64 step" by (rule fits_int64_step)
  have 2: "cut_image step img ax = Inr (fromarray ?out)"
    using assms(1) nz fits by (rule cut_image_eq)
  have 3: "pixel_count ?out = pixel_count ?a" using len by (rule pixel_count_take_along)
  have 4: "trailing ?out = trailing ?a" by (rule trailing_take_along)
  have 5: "trailing ?out = trailing img" by (simp add: trailing_take_along slice2_def)
  have 6: "shape ?out = shape ?a" using len by (rule shape_take_along)
  have 7: "distinct ?order" "set ?order = {0..<extent ax ?a}" by (rule band_order_perm)+
  have 8: "?a = img \<and> pixel_count ?out = pixel_count img \<and> shape ?out = shape img"
    if "step dvd int (height img) \<and> step dvd int (width img)"
  proof -
    from that have "?a = img" using slice2_id [OF assms(1)] by blast
    with 3 6 show ?thesis by simp
  qed
  from 1 2 3 4 5 6 7 8 show ?thesis by blast
qed

theorem cut_image_preserves_aligned_size_witness:
  "wf_ndarray img33 \<and> (1::int) \<le> 2 \<and> (2::int) < 2 ^ 63
   \<and> map_sum id (pixel_count \<circ> np_array) (cut_image 2 img33 Columns) = Inr 4
   \<and> map_sum id pixel_count (adjust_image_size 2 img33) = Inr 4"
proof -
  have wf: "wf_ndarray img33" by (simp add: wf_ndarray_def img33_def)
  have run: "map_sum id (pixel_count \<circ> np_array) (cut_image 2 img33 Columns) = Inr 4"
    "map_sum id pixel_count (adjust_image_size 2 img33) = Inr 4"
    by code_simp+
  from cut_image_preserves_aligned_size [OF wf, of 2 Columns] wf run show ?thesis by simp
qed

text \<open>
  Claim C6 says that \<open>cut_image\<close> returns its input when the extent along the axis
  is the step. It does not when the other extent is no multiple of the step: the 2 x 3
  buffer with step 2 along the rows comes back as its 2 x 2 crop.
\<close>

theorem cut_image_single_band_counterexample:
  "int (extent Rows img23) = 2 \<and> cut_image 2 img23 Rows \<noteq> Inr (fromarray img23)
   \<and> cut_image 2 img23 Rows = Inr (fromarray
        \<lparr>height = 2, width = 2, trailing = [], cells = [[1, 2], [4, 5]]\<rparr>)"
proof -
  have run: "cut_image 2 img23 Rows = Inr (fromarray
        \<lparr>height = 2, width = 2, trailing = [], cells = [[1, 2], [4, 5]]\<rparr>)"
    by code_simp
  have ext: "int (extent Rows img23) = 2" by (simp add: img23_def)
  have ne: "cut_image 2 img23 Rows \<noteq> Inr (fromarray img23)"
    unfolding run by (simp add: fromarray_def img23_def)
  from ext ne run show ?thesis by simp
qed

text \<open>
  Claim C6, amended. For a buffer whose extent along the axis equals the step (a single
  band), every position is in the even band, the odd group is empty, and \<open>cut_image\<close>
  returns the aligned buffer unchanged; that is the input itself when its height and
  width are multiples of the step.
\<close>

theorem cut_image_single_band:
  assumes "wf_ndarray img" and "1 \<le> step" and "int (extent ax img) = step"
  shows "\<exists>aligned.
      adjust_image_size step img = Inr aligned
    \<and> cut_image step img ax = Inr (fromarray aligned)
    \<and> extent ax aligned = extent ax img
    \<and> filter (\<lambda>i. (int i div step) mod 2 = 0) [0..<extent ax aligned] = [0..<extent ax aligned]
    \<and> filter (\<lambda>i. (int i div step) mod 2 \<noteq> 0) [0..<extent ax aligned] = []
    \<and> (step dvd int (height img) \<and> step dvd int (width img) \<longrightarrow>
          aligned = img \<and> cut_image step img ax = Inr (fromarray img))"
proof -
  let ?a = "slice2 (int (height img) div step * step) (int (width img) div step * step) img"
  let ?n = "extent ax ?a"
  from assms(2) have nz: "step \<noteq> 0" by simp
  have wf: "wf_ndarray ?a" using assms(1) by (rule wf_slice2)
  have "int ?n = int (extent ax img) div step * step"
    using assms(2) by (rule extent_slice2)
  also have "\<dots> = step" using nz by (simp add: assms(3))
  finally have n: "int ?n = step" .
  then have le: "int ?n \<le> step" by simp
  have 1: "adjust_image_size step img = Inr ?a" using nz by (rule adjust_image_size_Inr)
  from assms(1) have "extent ax img < 2 ^ 63" by (cases ax) (simp_all add: wf_ndarray_def)
  then have "int (extent ax img) < 2 ^ 63" by (simp flip: of_nat_less_numeral_power_cancel_iff)
  with assms(2,3) have fits: "fits_int64 step" by (simp add: fits_int64_def)
  have "cut_image step img ax = Inr (fromarray (take_along ax (band_order step ?n) ?a))"
    using assms(1) nz fits by (rule cut_image_eq)
  also have "band_order step ?n = [0..<?n]"
    using assms(2) le by (rule band_order_single)
  also have "take_along ax [0..<?n] ?a = ?a" using wf by (rule take_along_id)
  finally have 2: "cut_image step img ax = Inr (fromarray ?a)" .
  have 3: "?n = extent ax img" using n assms(3) by simp
  have 4: "filter (\<lambda>i. (int i div step) mod 2 = 0) [0..<?n] = [0..<?n]"
    using band_order_single(1) [OF assms(2) le] by (simp add: even_band_def [abs_def])
  have 5: "filter (\<lambda>i. (int i div step) mod 2 \<noteq> 0) [0..<?n] = []"
    using band_order_single(2) [OF assms(2) le] by (simp add: even_band_def [abs_def])
  have 6: "?a = img \<and> cut_image step img ax = Inr (fromarray img)"
    if "step dvd int (height img) \<and> step dvd int (width img)"
  proof -
    from that have "?a = img" using slice2_id [OF assms(1)] by blast
    with 2 show ?thesis by simp
  qed
  from 1 2 3 4 5 6 show ?thesis by blast
qed

theorem cut_image_single_band_witness:
  "wf_ndarray img46 \<and> (1::int) \<le> 2 \<and> int (extent Rows (slice2 2 6 img46)) = 2
   \<and> wf_ndarray (slice2 2 6 img46)
   \<and> cut_image 2 (slice2 2 6 img46) Rows = Inr (fromarray (slice2 2 6 img46))"
proof -
  have wf0: "wf_ndarray img46" by (simp add: wf_ndarray_def img46_def)
  have wf: "wf_ndarray (slice2 2 6 img46)" using wf0 by (rule wf_slice2)
  have ext: "int (extent Rows (slice2 2 6 img46)) = 2"
    by (simp add: slice2_def slice_stop_def img46_def)
  have dv: "(2::int) dvd int (height (slice2 2 6 img46))
      \<and> (2::int) dvd int (width (slice2 2 6 img46))"
    by (simp add: slice2_def slice_stop_def img46_def)
  from cut_image_single_band [OF wf _ ext] dv wf0 wf ext show ?thesis by auto
qed


section \<open>Properties of process\_image\<close>

lemma np_array_fromarray: "np_array (fromarray a) = a"
  by (simp add: fromarray_def)

lemma wf_take_along:
  assumes "wf_ndarray a" "set idx \<subseteq> {0..<extent ax a}" "length idx = extent ax a"
  shows "wf_ndarray (take_along ax idx a)"
proof -
  from assms(1) have len: "length (cells a) = height a"
    and row: "\<And>r. r \<in> set (cells a) \<Longrightarrow> length r = width a"
    and bnd: "height a < 2 ^ 63" "width a < 2 ^ 63"
    by (simp_all add: wf_ndarray_def list_all_iff)
  show ?thesis
  proof (cases ax)
    case Rows
    have "length (cells a ! i) = width a" if "i \<in> set idx" for i
    proof -
      from that assms(2) have "i < length (cells a)" by (auto simp: Rows len)
      then show ?thesis by (simp add: row)
    qed
    then show ?thesis using assms(3) bnd by (simp add: Rows wf_ndarray_def list_all_iff)
  next
    case Columns
    show ?thesis using assms(3) bnd by (simp add: Columns wf_ndarray_def list_all_iff len)
  qed
qed

lemma slice2_dvd:
  assumes "1 \<le> step"
  shows "step dvd int (height (slice2 (int (height img) div step * step)
                                     (int (width img) div step * step) img))"
    and "step dvd int (width (slice2 (int (height img) div step * step)
                                    (int (width img) div step * step) img))"
  using extent_slice2 [OF assms, of Rows img] extent_slice2 [OF assms, of Columns img]
  by simp_all

lemma cut_image_aligned:
  assumes "wf_ndarray a" "1 \<le> step" "step dvd int (height a)" "step dvd int (width a)"
    "fits_int64 step"
  shows "cut_image step a ax = Inr (fromarray (take_along ax (band_order step (extent ax a)) a))"
proof -
  from assms(2) have nz: "step \<noteq> 0" by simp
  have "slice2 (int (height a) div step * step) (int (width a) div step * step) a = a"
    using assms(1,3,4) by (rule slice2_id)
  with cut_image_eq [OF assms(1) nz assms(5), of ax] show ?thesis by simp
qed

lemma process_image_steps:
  assumes opened: "images image_path = Opened img0"
    and wf0: "wf_ndarray (np_array img0)"
    and step: "1 \<le> step"
    and fits: "fits_int64 step"
    and base: "base = slice2 (int (height (np_array img0)) div step * step)
                            (int (width (np_array img0)) div step * step) (np_array img0)"
    and vertical: "vertical = take_along Columns (band_order step (width base)) base"
    and horizontal: "horizontal = take_along Rows (band_order step (height vertical)) vertical"
    and composite: "composite = base\<lparr>height := 3 * height base,
        cells := cells base @ cells vertical @ cells horizontal\<rparr>"
  shows "adjust_image_size step (np_array img0) = Inr base"
    and "cut_image step base Columns = Inr (fromarray vertical)"
    and "cut_image step vertical Rows = Inr (fromarray horizontal)"
    and "concatenate [base, vertical, horizontal] Rows = Inr composite"
    and "process_image images step image_path = Inr (fromarray composite)"
    and "shape vertical = shape base" and "shape horizontal = shape base"
proof -
  from step have nz: "step \<noteq> 0" by simp
  show 1: "adjust_image_size step (np_array img0) = Inr base"
    unfolding base using nz by (rule adjust_image_size_Inr)
  have wfb: "wf_ndarray base" unfolding base using wf0 by (rule wf_slice2)
  have dvb: "step dvd int (height base)" "step dvd int (width base)"
    unfolding base using step by (rule slice2_dvd)+
  show 2: "cut_image step base Columns = Inr (fromarray vertical)"
    unfolding vertical using cut_image_aligned [OF wfb step dvb fits, of Columns] by simp
  have lenv: "length (band_order step (width base)) = extent Columns base"
    by (simp add: band_order_perm)
  show sv: "shape vertical = shape base"
    unfolding vertical using lenv by (rule shape_take_along)
  then have hv: "height vertical = height base" and wv: "width vertical = width base"
    and tv: "trailing vertical = trailing base"
    by (simp_all add: shape_def)
  have wfv: "wf_ndarray vertical"
    unfolding vertical using wfb by (rule wf_take_along) (simp_all add: band_order_perm)
  have dvv: "step dvd int (height vertical)" "step dvd int (width vertical)"
    using dvb by (simp_all add: hv wv)
  show 3: "cut_image step vertical Rows = Inr (fromarray horizontal)"
    unfolding horizontal using cut_image_aligned [OF wfv step dvv fits, of Rows] by simp
  have lenh: "length (band_order step (height vertical)) = extent Rows vertical"
    by (simp add: band_order_perm)
  have "shape horizontal = shape vertical"
    unfolding horizontal using lenh by (rule shape_take_along)
  with sv show sh: "shape horizontal = shape base" by simp
  then have hh: "height horizontal = height base" and wh: "width horizontal = width base"
    and th: "trailing horizontal = trailing base"
    by (simp_all add: shape_def)
  show 4: "concatenate [base, vertical, horizontal] Rows = Inr composite"
    by (simp add: composite hv wv tv hh wh th)
  show "process_image images step image_path = Inr (fromarray composite)"
    by (simp only: process_image_def open_image_def opened and_then_def opened.case
        sum.case 1 2 3 4 np_array_fromarray Let_def)
qed

text \<open>
  Claim C2 says that \<open>process_image\<close> returns the composite for every step of at
  least 1. It does not for a step of \<open>2 ^ 63\<close> or more: \<open>cut_image\<close> raises
  \<^verbatim>\<open>OverflowError\<close> when it divides the 64-bit array of positions by such a step.
\<close>

theorem process_image_step_overflow_counterexample:
  "(\<lambda>p. Opened (Image img33)) (YStr ''a.png'') = Opened (Image img33)
   \<and> wf_ndarray (np_array (Image img33)) \<and> (1::int) \<le> 2 ^ 63
   \<and> process_image (\<lambda>p. Opened (Image img33)) (2 ^ 63) (YStr ''a.png'')
       = Inl (Raised OverflowError)"
proof -
  have nz: "(2::int) ^ 63 \<noteq> 0" by simp
  have nf: "\<not> fits_int64 (2 ^ 63)" by (simp add: fits_int64_def)
  have wf: "wf_ndarray (np_array (Image img33))" by (simp add: wf_ndarray_def img33_def)
  have o: "open_image (\<lambda>p. Opened (Image img33)) (YStr ''a.png'') = Inr (Image img33)"
    by (simp add: open_image_def)
  have "process_image (\<lambda>p. Opened (Image img33)) (2 ^ 63) (YStr ''a.png'')
       = Inl (Raised OverflowError)"
    by (simp only: process_image_def o and_then_Inr np_array.simps
        adjust_image_size_Inr [OF nz] Let_def cut_image_overflow [OF nz nf]
        and_then_def sum.case)
  moreover have "(1::int) \<le> 2 ^ 63" by simp
  ultimately show ?thesis using wf by blast
qed

text \<open>
  Claim C2, amended. For an image that opens and a step of at least 1 and below
  \<open>2 ^ 63\<close>, \<open>process_image\<close> returns the concatenation along the rows of the aligned
  base buffer, of \<open>cut_image\<close> along the columns of the base, and of \<open>cut_image\<close> along
  the rows of that second buffer (not of the base); the composite is three times as high
  as the aligned buffer and as wide.
\<close>

theorem process_image_composite:
  assumes "images image_path = Opened img0" and "wf_ndarray (np_array img0)"
    and "1 \<le> step" and "step < 2 ^ 63"
  shows "\<exists>base vertical horizontal composite.
      adjust_image_size step (np_array img0) = Inr base
    \<and> cut_image step base Columns = Inr (fromarray vertical)
    \<and> cut_image step vertical Rows = Inr (fromarray horizontal)
    \<and> concatenate [base, vertical, horizontal] Rows = Inr composite
    \<and> process_image images step image_path = Inr (fromarray composite)
    \<and> cells composite = cells base @ cells vertical @ cells horizontal
    \<and> height composite = 3 * height base
    \<and> width composite = width base
    \<and> int (height base) = int (height (np_array img0)) div step * step
    \<and> int (width base) = int (width (np_array img0)) div step * step"
proof -
  define base where "base = slice2 (int (height (np_array img0)) div step * step)
                            (int (width (np_array img0)) div step * step) (np_array img0)"
  define vertical where "vertical = take_along Columns (band_order step (width base)) base"
  define horizontal
    where "horizontal = take_along Rows (band_order step (height vertical)) vertical"
  define composite where "composite = base\<lparr>height := 3 * height base,
        cells := cells base @ cells vertical @ cells horizontal\<rparr>"
  from assms(3,4) have fits: "fits_int64 step" by (rule fits_int64_step)
  note steps = process_image_steps
    [of images image_path img0 step base vertical horizontal composite,
      OF assms(1-3) fits base_def vertical_def horizontal_def composite_def]
  have c: "cells composite = cells base @ cells vertical @ cells horizontal"
    "height composite = 3 * height base" "width composite = width base"
    by (simp_all add: composite_def)
  have h: "int (height base) = int (height (np_array img0)) div step * step"
    using extent_slice2 [OF assms(3), of Rows "np_array img0"] by (simp add: base_def)
  have w: "int (width base) = int (width (np_array img0)) div step * step"
    using extent_slice2 [OF assms(3), of Columns "np_array img0"] by (simp add: base_def)
  from steps(1-5) c h w show ?thesis by blast
qed

theorem process_image_composite_witness:
  "(\<lambda>p. Opened (Image img46)) (YStr ''a.png'') = Opened (Image img46)
   \<and> wf_ndarray (np_array (Image img46)) \<and> (1::int) \<le> 1 \<and> (1::int) < 2 ^ 63
   \<and> process_image (\<lambda>p. Opened (Image img46)) 1 (YStr ''a.png'') = Inr (fromarray
       \<lparr>height = 12, width = 6, trailing = [],
        cells = [[1, 2, 3, 4, 5, 6], [7, 8, 9, 10, 11, 12],
                 [13, 14, 15, 16, 17, 18], [19, 20, 21, 22, 23, 24],
                 [1, 3, 5, 2, 4, 6], [7, 9, 11, 8, 10, 12],
                 [13, 15, 17, 14, 16, 18], [19, 21, 23, 20, 22, 24],
                 [1, 3, 5, 2, 4, 6], [13, 15, 17, 14, 16, 18],
                 [7, 9, 11, 8, 10, 12], [19, 21, 23, 20, 22, 24]]\<rparr>)
   \<and> (\<lambda>p. Opened (Image img37)) (YStr ''b.png'') = Opened (Image img37)
   \<and> wf_ndarray (np_array (Image img37)) \<and> (1::int) \<le> 2 \<and> (2::int) < 2 ^ 63
   \<and> process_image (\<lambda>p. Opened (Image img37)) 2 (YStr ''b.png'') = Inr (fromarray
       \<lparr>height = 6, width = 6, trailing = [],
        cells = [[1, 2, 3, 4, 5, 6], [8, 9, 10, 11, 12, 13],
                 [1, 2, 5, 6, 3, 4], [8, 9, 12, 13, 10, 11],
                 [1, 2, 5, 6, 3, 4], [8, 9, 12, 13, 10, 11]]\<rparr>)"
proof -
  have wf: "wf_ndarray (np_array (Image img46))" by (simp add: wf_ndarray_def img46_def)
  have wf': "wf_ndarray (np_array (Image img37))" by (simp add: wf_ndarray_def img37_def)
  have run: "process_image (\<lambda>p. Opened (Image img46)) 1 (YStr ''a.png'') = Inr (fromarray
       \<lparr>height = 12, width = 6, trailing = [],
        cells = [[1, 2, 3, 4, 5, 6], [7, 8, 9, 10, 11, 12],
                 [13, 14, 15, 16, 17, 18], [19, 20, 21, 22, 23, 24],
                 [1, 3, 5, 2, 4, 6], [7, 9, 11, 8, 10, 12],
                 [13, 15, 17, 14, 16, 18], [19, 21, 23, 20, 22, 24],
                 [1, 3, 5, 2, 4, 6], [13, 15, 17, 14, 16, 18],
                 [7, 9, 11, 8, 10, 12], [19, 21, 23, 20, 22, 24]]\<rparr>)"
    by code_simp
  have run': "process_image (\<lambda>p. Opened (Image img37)) 2 (YStr ''b.png'') = Inr (fromarray
       \<lparr>height = 6, width = 6, trailing = [],
        cells = [[1, 2, 3, 4, 5, 6], [8, 9, 10, 11, 12, 13],
                 [1, 2, 5, 6, 3, 4], [8, 9, 12, 13, 10, 11],
                 [1, 2, 5, 6, 3, 4], [8, 9, 12, 13, 10, 11]]\<rparr>)"
    by code_simp
  from process_image_composite [of "\<lambda>p. Opened (Image img46)" "YStr ''a.png''" "Image img46" 1]
    process_image_composite [of "\<lambda>p. Opened (Image img37)" "YStr ''b.png''" "Image img37" 2]
    wf wf' run run'
  show ?thesis by simp
qed

section \<open>The bound on step is two percent of the larger dimension\<close>

lemma bitlen_le: "n < 2 ^ k \<Longrightarrow> bitlen n \<le> k"
proof (induction k arbitrary: n)
  case 0
  then have "n = 0" by simp
  then show ?case by (simp add: bitlen.simps)
next
  case (Suc k)
  show ?case
  proof (cases "n = 0")
    case True
    then show ?thesis by (simp add: bitlen.simps)
  next
    case False
    from Suc.prems have "n div 2 < 2 ^ k" by simp
    then have "bitlen (n div 2) \<le> k" by (rule Suc.IH)
    with False show ?thesis by (subst bitlen.simps) simp
  qed
qed

lemma round53_small: "bitlen m \<le> 53 \<Longrightarrow> round53 m e = (m, e)"
  by (simp add: round53_def)

lemma round53_large:
  assumes "\<not> bitlen m \<le> 53"
  shows "\<exists>q. round53 m e = (q, e + int (bitlen m - 53))
    \<and> (q = m div 2 ^ (bitlen m - 53) \<or> q = m div 2 ^ (bitlen m - 53) + 1)"
  using assms by (simp add: round53_def Let_def)

lemma trunc_window:
  fixes P k sh q :: nat
  assumes lo: "k * 2 ^ 58 \<le> P" and hi: "P + 2 ^ 31 < (k + 1) * 2 ^ 58"
    and sh: "sh \<le> 31" and q: "q = P div 2 ^ sh \<or> q = P div 2 ^ sh + 1"
  shows "q div 2 ^ (58 - sh) = k"
proof -
  define S :: nat where "S = 2 ^ sh"
  define D :: nat where "D = 2 ^ (58 - sh)"
  have S0: "0 < S" by (simp add: S_def)
  have DS: "D * S = 2 ^ 58"
    using sh by (simp add: S_def D_def flip: power_add)
  have S31: "S \<le> 2 ^ 31" unfolding S_def using sh by (intro power_increasing) simp_all
  have "k * D * S \<le> P" using lo by (simp add: DS mult.assoc)
  then have low: "k * D \<le> P div S" using S0 by (simp add: less_eq_div_iff_mult_less_eq)
  have "(P div S + 1) * S \<le> P + S" by (simp add: add_mult_distrib)
  also have "\<dots> \<le> P + 2 ^ 31" using S31 by simp
  also have "\<dots> < (k + 1) * D * S" unfolding mult.assoc DS by (rule hi)
  finally have "(P div S + 1) * S < ((k + 1) * D) * S" .
  then have up: "P div S + 1 < (k + 1) * D" by (simp only: mult_less_cancel2)
  from q have "q = P div S \<or> q = P div S + 1" by (simp add: S_def)
  with low up have "D * k \<le> q" and "q < D * Suc k"
    by (auto simp: mult.commute)
  then have "q div D = k" by (rule div_nat_eqI)
  then show ?thesis by (simp add: D_def)
qed

lemma step_window:
  fixes n :: nat
  assumes "n < 2 ^ 31"
  shows "n div 50 * 2 ^ 58 \<le> n * 5764607523034235"
    and "n * 5764607523034235 + 2 ^ 31 < (n div 50 + 1) * 2 ^ 58"
proof -
  define k where "k = n div 50"
  define r where "r = n mod 50"
  have n: "n = 50 * k + r" and r: "r < 50" by (simp_all add: k_def r_def)
  from assms n have k: "k < 2 ^ 31" by simp
  show "n div 50 * 2 ^ 58 \<le> n * 5764607523034235"
    unfolding k_def [symmetric] using n by simp
  show "n * 5764607523034235 + 2 ^ 31 < (n div 50 + 1) * 2 ^ 58"
    unfolding k_def [symmetric] using n r k by simp
qed

lemma float_of_nat_exact: "n < 2 ^ 31 \<Longrightarrow> float_of_nat n = (n, 0)"
proof -
  assume "n < 2 ^ 31"
  then have "bitlen n \<le> 31" by (rule bitlen_le)
  then show ?thesis by (simp add: float_of_nat_def round53_small)
qed

lemma max_step_of_div:
  assumes "max w h < 2 ^ 31"
  shows "max_step_of (w, h) = int (max w h) div 50"
proof -
  define n where "n = max w h"
  define P where "P = n * 5764607523034235"
  from assms have n31: "n < 2 ^ 31" by (simp add: n_def)
  note win = step_window [OF n31, folded P_def]
  have mul: "float_mul (float_of_nat n) float_0_02 = round53 P (- 58)"
    by (simp add: float_of_nat_exact [OF n31] float_mul_def float_0_02_def P_def)
  have tr: "trunc_float (round53 P (- 58)) = int (n div 50)"
  proof (cases "bitlen P \<le> 53")
    case True
    have "P div 2 ^ (58 - 0) = n div 50"
      using win by (rule trunc_window) simp_all
    then have "int P div 2 ^ 58 = int (n div 50)"
      by (simp flip: zdiv_int)
    then show ?thesis by (simp add: round53_small [OF True] trunc_float_def)
  next
    case False
    define sh where "sh = bitlen P - 53"
    from round53_large [OF False, of "- 58"] obtain q
      where rq: "round53 P (- 58) = (q, - 58 + int sh)"
        and q: "q = P div 2 ^ sh \<or> q = P div 2 ^ sh + 1"
      by (auto simp: sh_def)
    have "P < 2 ^ 31 * 2 ^ 53"
      unfolding P_def using n31 by (intro mult_strict_mono) simp_all
    then have "P < 2 ^ 84" by simp
    then have "bitlen P \<le> 84" by (rule bitlen_le)
    then have sh31: "sh \<le> 31" by (simp add: sh_def)
    have "q div 2 ^ (58 - sh) = n div 50"
      using win sh31 q by (rule trunc_window)
    then have "int (q div 2 ^ (58 - sh)) = int (n div 50)" by simp
    then have "int q div 2 ^ (58 - sh) = int (n div 50)" by (simp add: zdiv_int)
    moreover have "nat (58 - int sh) = 58 - sh" using sh31 by simp
    ultimately have "int q div 2 ^ nat (58 - int sh) = int (n div 50)" by simp
    with sh31 show ?thesis by (simp add: rq trunc_float_def)
  qed
  have "max_step_of (w, h) = trunc_float (float_mul (float_of_nat n) float_0_02)"
    by (simp add: max_step_of_def n_def)
  also have "\<dots> = trunc_float (round53 P (- 58))" by (simp only: mul)
  also have "\<dots> = int (n div 50)" by (rule tr)
  also have "\<dots> = int (max w h) div 50" by (simp add: n_def zdiv_int)
  finally show ?thesis .
qed


section \<open>Properties of validate\_config\<close>

lemma lookup_keys_mk_config: "lookup_keys (mk_config p s) = Inr (p, s)"
  by (simp add: lookup_keys_def mk_config_def and_then_def)

lemma validate_config_checked:
  assumes "lookup_keys config = Inr (image_path, step_str)" "py_int step_str = Inr step"
  shows "validate_config images config =
     (case open_image images image_path of
        Inl e \<Rightarrow> Inl e
      | Inr img \<Rightarrow>
          if step < 1 \<or> step > max_step_of (image_size img)
          then Inl (StepNotInRange (max_step_of (image_size img)) step)
          else Inr (image_path, step))"
  by (simp add: validate_config_def assms Let_def split: sum.split)

lemma validate_config_opened:
  assumes "lookup_keys config = Inr (image_path, step_str)" "py_int step_str = Inr step"
    "open_image images image_path = Inr img"
  shows "validate_config images config =
     (if step < 1 \<or> step > max_step_of (image_size img)
      then Inl (StepNotInRange (max_step_of (image_size img)) step)
      else Inr (image_path, step))"
  by (simp add: validate_config_checked [OF assms(1,2)] assms(3))

lemma two_percent_floor: "\<lfloor>0.02 * real n\<rfloor> = int n div 50"
proof -
  have "0.02 * real n = real_of_int (int n) / real_of_int 50" by simp
  then show ?thesis by (simp only: floor_divide_of_int_eq)
qed

text \<open>
  Claim C7. When the keys are present and the step coerces to an integer, but no file
  is at the image path, \<open>validate_config\<close> raises the image-not-found error whatever the
  step is, and never the step-out-of-range error.
\<close>

theorem validate_config_image_missing:
  assumes "lookup_keys config = Inr (image_path, step_str)"
    and "py_int step_str = Inr step"
    and "images image_path = NoSuchFile"
  shows "validate_config images config = Inl ImageFileNotFound
    \<and> kind_of ImageFileNotFound = Some ImageNotFound
    \<and> validate_config images config \<noteq> Inl (StepNotInRange mx s)"
  by (simp add: validate_config_checked [OF assms(1,2)] open_image_def assms(3))

theorem validate_config_image_missing_witness:
  "lookup_keys (mk_config (YStr ''missing.png'') (YInt 0)) = Inr (YStr ''missing.png'', YInt 0)
   \<and> py_int (YInt 0) = Inr 0
   \<and> validate_config (\<lambda>p. NoSuchFile :: nat pil_image opened)
        (mk_config (YStr ''missing.png'') (YInt 0)) = Inl ImageFileNotFound"
  using validate_config_image_missing
    [of "mk_config (YStr ''missing.png'') (YInt 0)" "YStr ''missing.png''" "YInt 0" 0
        "\<lambda>p. NoSuchFile :: nat pil_image opened"]
  by (simp add: lookup_keys_mk_config)

text \<open>
  Claim C4 says that step = max\_step always succeeds. It does not when max\_step is 0:
  for a 3 x 3 image \<open>int(3 * 0.02) = 0\<close>, and step 0 is rejected by \<open>step < 1\<close>.
\<close>

theorem validate_config_max_step_counterexample:
  "lookup_keys (mk_config (YStr ''a.png'') (YInt 0)) = Inr (YStr ''a.png'', YInt 0)
   \<and> py_int (YInt 0) = Inr 0
   \<and> image_size (Image img33) = (3, 3)
   \<and> max_step_of (3, 3) = 0
   \<and> validate_config (\<lambda>p. Opened (Image img33)) (mk_config (YStr ''a.png'') (YInt 0))
       = Inl (StepNotInRange 0 0)"
proof -
  have m: "max_step_of (3, 3) = 0" by (simp add: max_step_of_div)
  have s: "image_size (Image img33) = (3, 3)" by (simp add: img33_def)
  have o: "open_image (\<lambda>p. Opened (Image img33)) (YStr ''a.png'') = Inr (Image img33)"
    by (simp add: open_image_def)
  have p: "py_int (YInt 0) = Inr 0" by simp
  have "validate_config (\<lambda>p. Opened (Image img33)) (mk_config (YStr ''a.png'') (YInt 0))
       = Inl (StepNotInRange 0 0)"
    unfolding validate_config_opened [OF lookup_keys_mk_config p o] s m by simp
  with m s p show ?thesis by (simp add: lookup_keys_mk_config)
qed

text \<open>
  Claim C4, amended. When the keys are present, the step coerces to an integer and the
  image opens with dimensions \<open>w\<close> x \<open>h\<close> (below \<open>2 ^ 31\<close>, as PIL keeps them), the bound
  computed in doubles is the floor of two percent of the larger dimension, and
  \<open>validate_config\<close> raises the step-out-of-range error iff \<open>step < 1\<close> or
  \<open>step > max_step\<close>; a step of \<open>max_step + 1\<close> is rejected, and a step equal to
  \<open>max_step\<close> is accepted provided \<open>max_step\<close> is at least 1.
\<close>

theorem validate_config_step_range:
  assumes "lookup_keys config = Inr (image_path, step_str)"
    and "py_int step_str = Inr step"
    and "images image_path = Opened img"
    and "image_size img = (w, h)"
    and "max w h < 2 ^ 31"
  shows "max_step_of (w, h) = \<lfloor>0.02 * real (max w h)\<rfloor>
    \<and> ((\<exists>mx s. validate_config images config = Inl (StepNotInRange mx s))
         \<longleftrightarrow> step < 1 \<or> step > max_step_of (w, h))
    \<and> ((\<exists>e. validate_config images config = Inl e \<and> kind_of e = Some StepOutOfRange)
         \<longleftrightarrow> step < 1 \<or> step > max_step_of (w, h))
    \<and> (1 \<le> step \<and> step \<le> max_step_of (w, h)
         \<longrightarrow> validate_config images config = Inr (image_path, step))
    \<and> (1 \<le> max_step_of (w, h) \<and> step = max_step_of (w, h)
         \<longrightarrow> validate_config images config = Inr (image_path, step))
    \<and> (step = max_step_of (w, h) + 1
         \<longrightarrow> validate_config images config = Inl (StepNotInRange (max_step_of (w, h)) step))"
proof -
  have v: "validate_config images config =
     (if step < 1 \<or> step > max_step_of (w, h)
      then Inl (StepNotInRange (max_step_of (w, h)) step)
      else Inr (image_path, step))"
  proof -
    have "open_image images image_path = Inr img" by (simp add: open_image_def assms(3))
    from validate_config_opened [OF assms(1,2) this] show ?thesis by (simp add: assms(4))
  qed
  have f: "max_step_of (w, h) = \<lfloor>0.02 * real (max w h)\<rfloor>"
    using max_step_of_div [OF assms(5)] by (simp only: two_percent_floor)
  have nonneg: "0 \<le> max_step_of (w, h)"
    using max_step_of_div [OF assms(5)] by simp
  have 1: "(\<exists>mx s. validate_config images config = Inl (StepNotInRange mx s))
         \<longleftrightarrow> step < 1 \<or> step > max_step_of (w, h)"
    unfolding v by auto
  have 2: "(\<exists>e. validate_config images config = Inl e \<and> kind_of e = Some StepOutOfRange)
         \<longleftrightarrow> step < 1 \<or> step > max_step_of (w, h)"
    unfolding v by auto
  have 3: "1 \<le> step \<and> step \<le> max_step_of (w, h)
         \<longrightarrow> validate_config images config = Inr (image_path, step)"
    unfolding v by auto
  have 4: "1 \<le> max_step_of (w, h) \<and> step = max_step_of (w, h)
         \<longrightarrow> validate_config images config = Inr (image_path, step)"
    unfolding v by auto
  have 5: "step = max_step_of (w, h) + 1
         \<longrightarrow> validate_config images config = Inl (StepNotInRange (max_step_of (w, h)) step)"
    unfolding v using nonneg by auto
  from f 1 2 3 4 5 show ?thesis by blast
qed


theorem validate_config_step_range_witness:
  "lookup_keys (mk_config (YStr ''a.png'') (YInt 2)) = Inr (YStr ''a.png'', YInt 2)
   \<and> py_int (YInt 2) = Inr 2
   \<and> (\<lambda>p. Opened (Image img100)) (YStr ''a.png'') = Opened (Image img100)
   \<and> image_size (Image img100) = (100, 100)
   \<and> max (100::nat) 100 < 2 ^ 31
   \<and> max_step_of (100, 100) = 2
   \<and> validate_config (\<lambda>p. Opened (Image img100)) (mk_config (YStr ''a.png'') (YInt 2))
       = Inr (YStr ''a.png'', 2)"
proof -
  have k: "lookup_keys (mk_config (YStr ''a.png'') (YInt 2)) = Inr (YStr ''a.png'', YInt 2)"
    by (rule lookup_keys_mk_config)
  have p: "py_int (YInt 2) = Inr 2" by simp
  have s: "image_size (Image img100) = (100, 100)" by (simp add: img100_def)
  have b: "max (100::nat) 100 < 2 ^ 31" by simp
  have f: "\<lfloor>0.02 * real (max (100::nat) 100)\<rfloor> = 2" by simp
  from validate_config_step_range
    [of "mk_config (YStr ''a.png'') (YInt 2)" "YStr ''a.png''" "YInt 2" 2
        "\<lambda>p. Opened (Image img100)" "Image img100" 100 100, OF k p _ s b]
  have "max_step_of (100, 100) = 2
    \<and> validate_config (\<lambda>p. Opened (Image img100)) (mk_config (YStr ''a.png'') (YInt 2))
       = Inr (YStr ''a.png'', 2)"
    unfolding f by simp
  with k p s b show ?thesis by simp
qed

lemma getitem_not_dict: "\<forall>items. v \<noteq> YDict items \<Longrightarrow> getitem v k = Inl (Raised TypeError)"
  by (cases v) simp_all

text \<open>
  Claim C10. Some configurations fail outside the four failure kinds: when the key
  \<open>numpy_basics\<close> is present but its value is no mapping, or when the step is \<^verbatim>\<open>None\<close>,
  \<open>validate_config\<close> raises a \<^verbatim>\<open>TypeError\<close>, which is none of the four kinds and which the
  handler of \<open>main\<close> (\<^verbatim>\<open>FileNotFoundError\<close> and \<^verbatim>\<open>ValueError\<close> only) does not catch.
\<close>

theorem validate_config_type_error:
  shows "(getitem config ''numpy_basics'' = Inr v \<and> (\<forall>items. v \<noteq> YDict items)
           \<longrightarrow> validate_config images config = Inl (Raised TypeError))
    \<and> (lookup_keys config = Inr (image_path, YNull)
           \<longrightarrow> validate_config images config = Inl (Raised TypeError))
    \<and> kind_of (Raised TypeError) = None
    \<and> (files ''config.yaml'' = Opened config
         \<and> validate_config images config = Inl (Raised TypeError)
           \<longrightarrow> main files images = Uncaught (Raised TypeError))"
proof -
  have 1: "validate_config images config = Inl (Raised TypeError)"
    if "getitem config ''numpy_basics'' = Inr v \<and> (\<forall>items. v \<noteq> YDict items)"
  proof -
    from that have "getitem v ''image_path'' = Inl (Raised TypeError)"
      by (simp add: getitem_not_dict)
    with that have "lookup_keys config = Inl (Raised TypeError)"
      by (simp add: lookup_keys_def and_then_def)
    then show ?thesis by (simp add: validate_config_def)
  qed
  have 2: "validate_config images config = Inl (Raised TypeError)"
    if "lookup_keys config = Inr (image_path, YNull)"
    using that by (simp add: validate_config_def)
  have 3: "kind_of (Raised TypeError) = None" by simp
  have 4: "main files images = Uncaught (Raised TypeError)"
    if "files ''config.yaml'' = Opened config
         \<and> validate_config images config = Inl (Raised TypeError)"
    using that by (simp add: main_def load_config_def and_then_def)
  from 1 2 3 4 show ?thesis by blast
qed

theorem validate_config_type_error_witness:
  "getitem (YDict [(YStr ''numpy_basics'', YInt 5)]) ''numpy_basics'' = Inr (YInt 5)
   \<and> validate_config (\<lambda>p. Opened (Image img33)) (YDict [(YStr ''numpy_basics'', YInt 5)])
       = Inl (Raised TypeError)
   \<and> lookup_keys (mk_config (YStr ''a.png'') YNull) = Inr (YStr ''a.png'', YNull)
   \<and> validate_config (\<lambda>p. Opened (Image img33)) (mk_config (YStr ''a.png'') YNull)
       = Inl (Raised TypeError)
   \<and> main (\<lambda>p. Opened (mk_config (YStr ''a.png'') YNull)) (\<lambda>p. Opened (Image img33))
       = Uncaught (Raised TypeError)"
proof -
  have g: "getitem (YDict [(YStr ''numpy_basics'', YInt 5)]) ''numpy_basics'' = Inr (YInt 5)"
    by simp
  have k: "lookup_keys (mk_config (YStr ''a.png'') YNull) = Inr (YStr ''a.png'', YNull)"
    by (rule lookup_keys_mk_config)
  from validate_config_type_error
    [of "YDict [(YStr ''numpy_basics'', YInt 5)]" "YInt 5" "\<lambda>p. Opened (Image img33)"] g
  have a: "validate_config (\<lambda>p. Opened (Image img33)) (YDict [(YStr ''numpy_basics'', YInt 5)])
       = Inl (Raised TypeError)"
    by simp
  from validate_config_type_error
    [of "mk_config (YStr ''a.png'') YNull" _ "\<lambda>p. Opened (Image img33)" "YStr ''a.png''"
        "\<lambda>p. Opened (mk_config (YStr ''a.png'') YNull)"] k
  have b: "validate_config (\<lambda>p. Opened (Image img33)) (mk_config (YStr ''a.png'') YNull)
       = Inl (Raised TypeError)"
    and c: "main (\<lambda>p. Opened (mk_config (YStr ''a.png'') YNull)) (\<lambda>p. Opened (Image img33))
       = Uncaught (Raised TypeError)"
    by simp_all
  from g k a b c show ?thesis by simp
qed


section \<open>Properties of the coercion of step\<close>

lemma digit_of_dot: "digit_of CHR ''.'' = None"
  by (simp add: digit_of_def)

lemma parse_digits_no_dot: "parse_digits acc cs = Some n \<Longrightarrow> CHR ''.'' \<notin> set cs"
proof (induction acc cs arbitrary: n rule: parse_digits.induct)
  case (1 acc)
  show ?case by simp
next
  case (2 acc c)
  then show ?case by (auto simp: digit_of_dot split: option.splits)
next
  case (3 acc c d ds)
  show ?case
  proof (cases "c = CHR ''_''")
    case True
    with "3.prems" obtain v where v: "digit_of d = Some v"
      and rest: "parse_digits (10 * acc + v) ds = Some n"
      by (auto split: option.splits)
    from "3.IH"(1) [OF True v rest] have "CHR ''.'' \<notin> set ds" .
    moreover from v have "d \<noteq> CHR ''.''" by (auto simp: digit_of_dot)
    ultimately show ?thesis using True by simp
  next
    case False
    with "3.prems" obtain v where v: "digit_of c = Some v"
      and rest: "parse_digits (10 * acc + v) (d # ds) = Some n"
      by (auto split: option.splits)
    from "3.IH"(2) [OF False v rest] have "CHR ''.'' \<notin> set (d # ds)" .
    moreover from v have "c \<noteq> CHR ''.''" by (auto simp: digit_of_dot)
    ultimately show ?thesis by simp
  qed
qed

lemma parse_unsigned_no_dot: "parse_unsigned s = Some n \<Longrightarrow> CHR ''.'' \<notin> set s"
  by (auto simp: parse_unsigned_def digit_of_dot split: list.splits option.splits if_splits
      dest: parse_digits_no_dot)

lemma in_set_dropWhile: "x \<in> set xs \<Longrightarrow> \<not> P x \<Longrightarrow> x \<in> set (dropWhile P xs)"
  by (induction xs) auto

lemma dot_in_strip: "CHR ''.'' \<in> set s \<Longrightarrow> CHR ''.'' \<in> set (strip s)"
proof -
  assume a: "CHR ''.'' \<in> set s"
  have ns: "\<not> is_space CHR ''.''" by (simp add: is_space_def)
  from a ns have "CHR ''.'' \<in> set (rev (dropWhile is_space s))"
    by (simp add: in_set_dropWhile)
  then have "CHR ''.'' \<in> set (dropWhile is_space (rev (dropWhile is_space s)))"
    using ns by (rule in_set_dropWhile)
  then show ?thesis by (simp add: strip_def)
qed

lemma int_of_str_dot: "CHR ''.'' \<in> set s \<Longrightarrow> int_of_str s = None"
proof (rule ccontr)
  assume a: "CHR ''.'' \<in> set s" and "int_of_str s \<noteq> None"
  then obtain i where i: "int_of_str s = Some i" by auto
  from a have d: "CHR ''.'' \<in> set (strip s)" by (rule dot_in_strip)
  from i have "CHR ''.'' \<notin> set (strip s)"
    by (auto simp: int_of_str_def split: list.splits if_splits dest: parse_unsigned_no_dot)
  with d show False by simp
qed

lemma int_of_float_trunc:
  "int_of_float (Finite m e) =
     Inr (if 0 \<le> float_value m e then \<lfloor>float_value m e\<rfloor> else \<lceil>float_value m e\<rceil>)"
proof (cases "0 \<le> e")
  case True
  have v: "float_value m e = real_of_int (m * 2 ^ nat e)" by (simp add: float_value_def True)
  show ?thesis unfolding int_of_float.simps v floor_of_int ceiling_of_int using True by simp
next
  case False
  define k where "k = nat (- e)"
  have v: "float_value m e = real_of_int m / real_of_int (2 ^ k)"
    by (simp add: float_value_def False k_def)
  have fl: "\<lfloor>float_value m e\<rfloor> = m div 2 ^ k"
    unfolding v by (rule floor_divide_of_int_eq)
  show ?thesis
  proof (cases "0 \<le> m")
    case True
    then have "0 \<le> float_value m e" by (simp add: v)
    moreover from True have "sgn m * (\<bar>m\<bar> div 2 ^ k) = m div 2 ^ k"
      by (cases "m = 0") simp_all
    ultimately show ?thesis using False by (simp add: fl k_def)
  next
    case neg: False
    then have "\<not> 0 \<le> float_value m e" by (simp add: v divide_less_0_iff not_le)
    moreover have "- float_value m e = real_of_int (- m) / real_of_int (2 ^ k)"
      by (simp add: v)
    then have "\<lfloor>- float_value m e\<rfloor> = (- m) div 2 ^ k"
      by (simp only: floor_divide_of_int_eq)
    then have "\<lceil>float_value m e\<rceil> = - ((- m) div 2 ^ k)" by (simp add: ceiling_def)
    moreover from neg have "sgn m * (\<bar>m\<bar> div 2 ^ k) = - ((- m) div 2 ^ k)" by simp
    ultimately show ?thesis using False by (simp add: k_def)
  qed
qed


text \<open>
  Claim C9. Coercion of the step treats numbers and numeric strings differently: a step
  that is a finite non-integer number such as 2.5 raises no invalid-configuration error
  and is truncated toward zero (2.5 becomes 2), whereas a string with a decimal point
  such as "2.5" fails the coercion and raises the invalid-configuration error.
\<close>

theorem step_coercion_asymmetric:
  shows "(lookup_keys config = Inr (image_path, YFloat (Finite m e)) \<longrightarrow>
            py_int (YFloat (Finite m e)) =
              Inr (if 0 \<le> float_value m e then \<lfloor>float_value m e\<rfloor> else \<lceil>float_value m e\<rceil>)
          \<and> (\<forall>err. validate_config images config = Inl err
                 \<longrightarrow> kind_of err \<noteq> Some InvalidConfig)
          \<and> (\<forall>img. images image_path = Opened img
                 \<and> 1 \<le> \<lfloor>float_value m e\<rfloor> \<and> \<lfloor>float_value m e\<rfloor> \<le> max_step_of (image_size img)
                 \<longrightarrow> validate_config images config = Inr (image_path, \<lfloor>float_value m e\<rfloor>)))
    \<and> (lookup_keys config' = Inr (image_path', YStr s) \<and> CHR ''.'' \<in> set s \<longrightarrow>
            py_int (YStr s) = Inl (Raised ValueError)
          \<and> validate_config images config' = Inl NotAnInteger
          \<and> kind_of NotAnInteger = Some InvalidConfig)"
proof -
  let ?t = "if 0 \<le> float_value m e then \<lfloor>float_value m e\<rfloor> else \<lceil>float_value m e\<rceil>"
  have p: "py_int (YFloat (Finite m e)) = Inr ?t"
    unfolding py_int.simps by (rule int_of_float_trunc)
  have A: "py_int (YFloat (Finite m e)) = Inr ?t
          \<and> (\<forall>err. validate_config images config = Inl err
                 \<longrightarrow> kind_of err \<noteq> Some InvalidConfig)
          \<and> (\<forall>img. images image_path = Opened img
                 \<and> 1 \<le> \<lfloor>float_value m e\<rfloor> \<and> \<lfloor>float_value m e\<rfloor> \<le> max_step_of (image_size img)
                 \<longrightarrow> validate_config images config = Inr (image_path, \<lfloor>float_value m e\<rfloor>))"
    if k: "lookup_keys config = Inr (image_path, YFloat (Finite m e))"
  proof -
    note v = validate_config_checked [OF k p, of images]
    have 1: "kind_of err \<noteq> Some InvalidConfig" if "validate_config images config = Inl err" for err
      using that unfolding v
      by (cases "images image_path")
         (auto simp: open_image_def split: if_splits)
    have 2: "validate_config images config = Inr (image_path, \<lfloor>float_value m e\<rfloor>)"
      if "images image_path = Opened img
           \<and> 1 \<le> \<lfloor>float_value m e\<rfloor> \<and> \<lfloor>float_value m e\<rfloor> \<le> max_step_of (image_size img)" for img
    proof -
      from that have "0 \<le> float_value m e" by linarith
      with that show ?thesis unfolding v by (simp add: open_image_def)
    qed
    from p 1 2 show ?thesis by blast
  qed
  have B: "py_int (YStr s) = Inl (Raised ValueError)
          \<and> validate_config images config' = Inl NotAnInteger
          \<and> kind_of NotAnInteger = Some InvalidConfig"
    if "lookup_keys config' = Inr (image_path', YStr s) \<and> CHR ''.'' \<in> set s"
  proof -
    from that have "int_of_str s = None" by (simp add: int_of_str_dot)
    then have "py_int (YStr s) = Inl (Raised ValueError)" by simp
    with that show ?thesis by (simp add: validate_config_def)
  qed
  from A B show ?thesis by blast
qed

theorem step_coercion_asymmetric_witness:
  "lookup_keys (mk_config (YStr ''a.png'') (YFloat (Finite 5 (- 1))))
      = Inr (YStr ''a.png'', YFloat (Finite 5 (- 1)))
   \<and> float_value 5 (- 1) = 2.5
   \<and> py_int (YFloat (Finite 5 (- 1))) = Inr 2
   \<and> validate_config (\<lambda>p. Opened (Image img100))
        (mk_config (YStr ''a.png'') (YFloat (Finite 5 (- 1)))) = Inr (YStr ''a.png'', 2)
   \<and> lookup_keys (mk_config (YStr ''a.png'') (YStr ''2.5'')) = Inr (YStr ''a.png'', YStr ''2.5'')
   \<and> CHR ''.'' \<in> set ''2.5''
   \<and> validate_config (\<lambda>p. Opened (Image img100))
        (mk_config (YStr ''a.png'') (YStr ''2.5'')) = Inl NotAnInteger"
proof -
  have k1: "lookup_keys (mk_config (YStr ''a.png'') (YFloat (Finite 5 (- 1))))
      = Inr (YStr ''a.png'', YFloat (Finite 5 (- 1)))"
    by (rule lookup_keys_mk_config)
  have k2: "lookup_keys (mk_config (YStr ''a.png'') (YStr ''2.5'')) = Inr (YStr ''a.png'', YStr ''2.5'')"
    by (rule lookup_keys_mk_config)
  have fv: "float_value 5 (- 1) = 2.5" by (simp add: float_value_def)
  have fl: "\<lfloor>2.5::real\<rfloor> = 2" by linarith
  have mx: "max_step_of (image_size (Image img100)) = 2"
    by (simp add: img100_def max_step_of_div)
  have dot: "CHR ''.'' \<in> set ''2.5''" by simp
  note inst = step_coercion_asymmetric
    [of "mk_config (YStr ''a.png'') (YFloat (Finite 5 (- 1)))" "YStr ''a.png''" 5 "- 1"
        "\<lambda>p. Opened (Image img100)" "mk_config (YStr ''a.png'') (YStr ''2.5'')"
        "YStr ''a.png''" "''2.5''", unfolded fv fl]
  from inst k1 have a: "py_int (YFloat (Finite 5 (- 1))) = Inr 2" by simp
  from inst k1 mx have b: "validate_config (\<lambda>p. Opened (Image img100))
        (mk_config (YStr ''a.png'') (YFloat (Finite 5 (- 1)))) = Inr (YStr ''a.png'', 2)"
    by simp
  from inst k2 dot have c: "validate_config (\<lambda>p. Opened (Image img100))
        (mk_config (YStr ''a.png'') (YStr ''2.5'')) = Inl NotAnInteger"
    by blast
  from k1 fv a b k2 dot c show ?thesis by blast
qed

section \<open>A step that validation accepts and that empties the buffer\<close>

text \<open>
  Claim C8. Validation accepts steps larger than the smaller dimension: for an image
  1000 wide and 10 high the bound is 20 and step 20 is accepted; \<open>adjust_image_size\<close>
  then returns a buffer of height 0 that keeps no pixel, and \<open>cut_image\<close> and
  \<open>process_image\<close> work on that empty buffer and return it.
\<close>

theorem validated_step_empties_buffer:
  assumes "wf_ndarray a" and "height a = 10" and "width a = 1000"
    and "images image_path = Opened (Image a)"
  shows "validate_config images (mk_config image_path (YInt 20)) = Inr (image_path, 20)
    \<and> adjust_image_size 20 a = Inr (a\<lparr>height := 0, cells := []\<rparr>)
    \<and> shape (a\<lparr>height := 0, cells := []\<rparr>) = 0 # 1000 # trailing a
    \<and> pixel_count (a\<lparr>height := 0, cells := []\<rparr>) = 0
    \<and> cut_image 20 (a\<lparr>height := 0, cells := []\<rparr>) Columns
        = Inr (fromarray (a\<lparr>height := 0, cells := []\<rparr>))
    \<and> cut_image 20 (a\<lparr>height := 0, cells := []\<rparr>) Rows
        = Inr (fromarray (a\<lparr>height := 0, cells := []\<rparr>))
    \<and> process_image images 20 image_path = Inr (fromarray (a\<lparr>height := 0, cells := []\<rparr>))"
proof -
  let ?e = "a\<lparr>height := 0, cells := []\<rparr>"
  have op: "open_image images image_path = Inr (Image a)"
    by (simp add: open_image_def assms(4))
  have mx: "max_step_of (image_size (Image a)) = 20"
    by (simp add: assms(2,3) max_step_of_div)
  have p: "py_int (YInt 20) = Inr 20" by simp
  have 1: "validate_config images (mk_config image_path (YInt 20)) = Inr (image_path, 20)"
    unfolding validate_config_opened [OF lookup_keys_mk_config p op] mx by simp
  have base: "?e = slice2 (int (height (np_array (Image a))) div 20 * 20)
                        (int (width (np_array (Image a))) div 20 * 20) (np_array (Image a))"
    by (simp add: slice2_def slice_stop_def assms(2,3))
  have vert: "?e = take_along Columns (band_order 20 (width ?e)) ?e"
    by (simp add: band_order_perm)
  have hor: "?e = take_along Rows (band_order 20 (height ?e)) ?e"
    by (simp add: band_order_def)
  have comp: "?e = ?e\<lparr>height := 3 * height ?e, cells := cells ?e @ cells ?e @ cells ?e\<rparr>"
    by simp
  have wf0: "wf_ndarray (np_array (Image a))" using assms(1) by simp
  note steps = process_image_steps
    [of images image_path "Image a" 20 ?e ?e ?e ?e, OF assms(4) wf0 _ _ base vert hor comp]
  have 2: "adjust_image_size 20 a = Inr ?e" using steps(1) by (simp add: fits_int64_def)
  have 3: "shape ?e = 0 # 1000 # trailing a" "pixel_count ?e = 0"
    by (simp_all add: pixel_count_def shape_def assms(3))
  have 4: "cut_image 20 ?e Columns = Inr (fromarray ?e)" using steps(2) by (simp add: fits_int64_def)
  have 5: "cut_image 20 ?e Rows = Inr (fromarray ?e)" using steps(3) by (simp add: fits_int64_def)
  have 6: "process_image images 20 image_path = Inr (fromarray ?e)" using steps(5) by (simp add: fits_int64_def)
  from 1 2 3 4 5 6 show ?thesis by blast
qed

theorem validated_step_empties_buffer_witness:
  "wf_ndarray img_wide \<and> height img_wide = 10 \<and> width img_wide = 1000
   \<and> (\<lambda>p. Opened (Image img_wide)) (YStr ''wide.png'') = Opened (Image img_wide)
   \<and> validate_config (\<lambda>p. Opened (Image img_wide)) (mk_config (YStr ''wide.png'') (YInt 20))
       = Inr (YStr ''wide.png'', 20)
   \<and> process_image (\<lambda>p. Opened (Image img_wide)) 20 (YStr ''wide.png'')
       = Inr (fromarray \<lparr>height = 0, width = 1000, trailing = [], cells = []\<rparr>)"
proof -
  have wf: "wf_ndarray img_wide" by (simp add: wf_ndarray_def img_wide_def list_all_iff)
  have h: "height img_wide = 10" and w: "width img_wide = 1000"
    by (simp_all add: img_wide_def)
  have e: "img_wide\<lparr>height := 0, cells := []\<rparr>
      = \<lparr>height = 0, width = 1000, trailing = [], cells = []\<rparr>"
    by (simp add: img_wide_def)
  from validated_step_empties_buffer
    [of img_wide "\<lambda>p. Opened (Image img_wide)" "YStr ''wide.png''", OF wf h w, unfolded e]
    wf h w
  show ?thesis by simp
qed


end
